theory Spec2Isabelle
  imports Complex_Main
begin

section \<open>Raster canvas of the grease-pencil fill tool (gpencil\_fill.c)\<close>

text \<open>
  A pixel is the C array \<^verbatim>\<open>float[4]\<close>. The fill code only compares channels with the
  constant \<^verbatim>\<open>1.0f\<close> and stores the constants \<^verbatim>\<open>0.0f\<close> and \<^verbatim>\<open>1.0f\<close>, so a channel is
  modelled as a real number. The optional 8-bit mirror \<^verbatim>\<open>ibuf->rect\<close> is written by
  \<^verbatim>\<open>set_pixel\<close> but never read by the functions below and is left out.
\<close>

datatype rgba = RGBA (ch_r: real) (ch_g: real) (ch_b: real) (ch_a: real)

record ImBuf =
  ibuf_x :: int
  ibuf_y :: int
  rect_float :: "rgba list"

text \<open>\<^verbatim>\<open>get_pixel\<close>: the pixel at a linear index (float buffer present).\<close>

definition get_pixel :: "ImBuf \<Rightarrow> int \<Rightarrow> rgba" where
  "get_pixel ibuf idx = rect_float ibuf ! nat idx"

text \<open>\<^verbatim>\<open>set_pixel\<close>: overwrite the pixel at a linear index.\<close>

definition set_pixel :: "ImBuf \<Rightarrow> int \<Rightarrow> rgba \<Rightarrow> ImBuf" where
  "set_pixel ibuf idx col = ibuf\<lparr>rect_float := (rect_float ibuf)[nat idx := col]\<rparr>"

definition LEAK_HORZ :: int where "LEAK_HORZ = 0"
definition LEAK_VERT :: int where "LEAK_VERT = 1"
definition FILL_DEBUG :: bool where "FILL_DEBUG = False"

subsection \<open>\<^verbatim>\<open>is_leak_narrow\<close>\<close>

text \<open>The four scanning loops of \<^verbatim>\<open>is_leak_narrow\<close>; each returns the flag it leaves
  in \<^verbatim>\<open>t_a\<close> or \<^verbatim>\<open>t_b\<close>.\<close>

function leak_top :: "ImBuf \<Rightarrow> int \<Rightarrow> int \<Rightarrow> int \<Rightarrow> int \<Rightarrow> bool" where
  "leak_top ibuf maxpixel limit index i =
     (if i \<le> limit then
        (let pt = index + ibuf_x ibuf * i in
         if pt \<le> maxpixel then
           (if ch_r (get_pixel ibuf pt) = 1 then True
            else leak_top ibuf maxpixel limit index (i + 1))
         else True)
      else False)"
  by pat_completeness auto
termination
  by (relation "measure (\<lambda>(ibuf, maxpixel, limit, index, i). nat (limit + 1 - i))") auto

function leak_bottom :: "ImBuf \<Rightarrow> int \<Rightarrow> int \<Rightarrow> int \<Rightarrow> bool" where
  "leak_bottom ibuf limit index i =
     (if i \<le> limit then
        (let pt = index - ibuf_x ibuf * i in
         if pt \<ge> 0 then
           (if ch_r (get_pixel ibuf pt) = 1 then True
            else leak_bottom ibuf limit index (i + 1))
         else True)
      else False)"
  by pat_completeness auto
termination
  by (relation "measure (\<lambda>(ibuf, limit, index, i). nat (limit + 1 - i))") auto

function leak_right :: "ImBuf \<Rightarrow> int \<Rightarrow> int \<Rightarrow> int \<Rightarrow> int \<Rightarrow> bool" where
  "leak_right ibuf lowpix limit index i =
     (if i < limit then
        (let pt = index - (limit - i) in
         if pt \<ge> lowpix then
           (if ch_r (get_pixel ibuf pt) = 1 then True
            else leak_right ibuf lowpix limit index (i + 1))
         else True)
      else False)"
  by pat_completeness auto
termination
  by (relation "measure (\<lambda>(ibuf, lowpix, limit, index, i). nat (limit - i))") auto

function leak_left :: "ImBuf \<Rightarrow> int \<Rightarrow> int \<Rightarrow> int \<Rightarrow> int \<Rightarrow> bool" where
  "leak_left ibuf higpix limit index i =
     (if i < limit then
        (let pt = index + (limit - i) in
         if pt \<le> higpix then
           (if ch_r (get_pixel ibuf pt) = 1 then True
            else leak_left ibuf higpix limit index (i + 1))
         else True)
      else False)"
  by pat_completeness auto
termination
  by (relation "measure (\<lambda>(ibuf, higpix, limit, index, i). nat (limit - i))") auto

declare leak_top.simps [simp del] leak_bottom.simps [simp del]
  leak_right.simps [simp del] leak_left.simps [simp del]

text \<open>C integer division truncates toward zero; the row of a pixel index is only
  computed for non-negative indices and positive widths, where it is \<open>div\<close>.\<close>

definition is_leak_narrow :: "ImBuf \<Rightarrow> int \<Rightarrow> int \<Rightarrow> int \<Rightarrow> int \<Rightarrow> bool" where
  "is_leak_narrow ibuf maxpixel limit index type =
     (let t_a = False; t_b = False;
          (t_a, t_b) =
            (if type = LEAK_HORZ
             then (leak_top ibuf maxpixel limit index 1, leak_bottom ibuf limit index 1)
             else (t_a, t_b));
          (t_a, t_b) =
            (if type = LEAK_VERT
             then (let row = index div ibuf_x ibuf;
                       lowpix = row * ibuf_x ibuf;
                       higpix = lowpix + ibuf_x ibuf - 1
                   in (leak_right ibuf lowpix limit index 0,
                       leak_left ibuf higpix limit index 0))
             else (t_a, t_b))
      in t_a \<and> t_b)"

subsection \<open>\<^verbatim>\<open>gpencil_boundaryfill_area\<close>\<close>

definition fill_col :: rgba where "fill_col = RGBA 0 1 0 1"

text \<open>The seed search: the first index below \<^verbatim>\<open>maxpixel\<close> whose blue channel is 1,
  or \<open>-1\<close>.\<close>

function seed_search :: "ImBuf \<Rightarrow> int \<Rightarrow> int \<Rightarrow> int" where
  "seed_search ibuf maxpixel i =
     (if i < maxpixel then
        (if ch_b (get_pixel ibuf i) = 1 then i
         else seed_search ibuf maxpixel (i + 1))
      else - 1)"
  by pat_completeness auto
termination
  by (relation "measure (\<lambda>(ibuf, maxpixel, i). nat (maxpixel - i))") auto

declare seed_search.simps [simp del]

text \<open>The pushes of one fill step, in source order (left, right, top, bottom) onto the
  LIFO stack, whose top is the head of the list.\<close>

definition push_if :: "bool \<Rightarrow> int \<Rightarrow> int list \<Rightarrow> int list" where
  "push_if c index stack = (if c then index # stack else stack)"

definition contact_pixels :: "ImBuf \<Rightarrow> int \<Rightarrow> int \<Rightarrow> int \<Rightarrow> int list \<Rightarrow> int list" where
  "contact_pixels ibuf maxpixel leak v stack =
     (let stack = push_if (v - 1 \<ge> 0 \<and> \<not> is_leak_narrow ibuf maxpixel leak v LEAK_HORZ)
                    (v - 1) stack;
          stack = push_if (v + 1 \<le> maxpixel \<and> \<not> is_leak_narrow ibuf maxpixel leak v LEAK_HORZ)
                    (v + 1) stack;
          stack = push_if (v + ibuf_x ibuf \<le> maxpixel
                           \<and> \<not> is_leak_narrow ibuf maxpixel leak v LEAK_VERT)
                    (v + ibuf_x ibuf) stack;
          stack = push_if (v - ibuf_x ibuf \<ge> 0
                           \<and> \<not> is_leak_narrow ibuf maxpixel leak v LEAK_VERT)
                    (v - ibuf_x ibuf) stack
      in stack)"

definition fillable :: "rgba \<Rightarrow> bool" where
  "fillable c = (ch_r c \<noteq> 1 \<and> ch_g c \<noteq> 1)"

text \<open>The \<^verbatim>\<open>while (!BLI_stack_is_empty(stack))\<close> loop. Popping an index outside the
  float buffer would read and write outside the array (undefined behaviour in C); the
  model returns \<open>None\<close> there.\<close>

function boundaryfill_loop :: "ImBuf \<Rightarrow> int \<Rightarrow> int \<Rightarrow> int list \<Rightarrow> ImBuf option" where
  "boundaryfill_loop ibuf maxpixel leak [] = Some ibuf"
| "boundaryfill_loop ibuf maxpixel leak (v # stack) =
     (if v < 0 \<or> int (length (rect_float ibuf)) \<le> v then None
      else if fillable (get_pixel ibuf v) then
        boundaryfill_loop (set_pixel ibuf v fill_col) maxpixel leak
          (contact_pixels (set_pixel ibuf v fill_col) maxpixel leak v stack)
      else boundaryfill_loop ibuf maxpixel leak stack)"
  by pat_completeness auto

lemma fillable_count_update:
  "i < length xs \<Longrightarrow> fillable (xs ! i) \<Longrightarrow> \<not> fillable c \<Longrightarrow>
   length (filter fillable (xs[i := c])) < length (filter fillable xs)"
proof (induction xs arbitrary: i)
  case Nil
  then show ?case by simp
next
  case (Cons p ps)
  show ?case
  proof (cases i)
    case 0
    with Cons.prems show ?thesis by simp
  next
    case (Suc j)
    with Cons.prems have "length (filter fillable (ps[j := c])) < length (filter fillable ps)"
      by (intro Cons.IH) simp_all
    with Suc show ?thesis by simp
  qed
qed

lemma fillable_count_set_pixel:
  "0 \<le> v \<Longrightarrow> v < int (length (rect_float ibuf)) \<Longrightarrow> fillable (get_pixel ibuf v) \<Longrightarrow>
   length (filter fillable (rect_float (set_pixel ibuf v fill_col)))
   < length (filter fillable (rect_float ibuf))"
proof -
  assume "0 \<le> v" "v < int (length (rect_float ibuf))" "fillable (get_pixel ibuf v)"
  then have "nat v < length (rect_float ibuf)" "fillable (rect_float ibuf ! nat v)"
    by (auto simp: get_pixel_def)
  then have "length (filter fillable ((rect_float ibuf)[nat v := fill_col]))
             < length (filter fillable (rect_float ibuf))"
    by (rule fillable_count_update) (simp add: fillable_def fill_col_def)
  then show ?thesis by (simp add: set_pixel_def)
qed

termination boundaryfill_loop
  by (relation "measures [\<lambda>(ibuf, maxpixel, leak, stack). length (filter fillable (rect_float ibuf)),
                          \<lambda>(ibuf, maxpixel, leak, stack). length stack]")
     (auto simp: fillable_count_set_pixel)

declare boundaryfill_loop.simps [simp del]

record tGPDfill =
  ima :: ImBuf
  fill_leak :: int
  sbuffer :: "(real \<times> real) list"
  sbuffer_used :: int

text \<open>The stack after the seed has been looked for and pushed.\<close>

definition seed_stack :: "ImBuf \<Rightarrow> int \<Rightarrow> int list" where
  "seed_stack ibuf maxpixel =
     (let index = seed_search ibuf maxpixel 0 in
      if index \<ge> 0 \<and> index \<le> maxpixel
      then (if \<not> FILL_DEBUG then [index] else [])
      else [])"

definition gpencil_boundaryfill_area :: "tGPDfill \<Rightarrow> tGPDfill option" where
  "gpencil_boundaryfill_area tgpf =
     (let ibuf = ima tgpf;
          maxpixel = ibuf_x ibuf * ibuf_y ibuf - 1;
          stack = seed_stack ibuf maxpixel
      in map_option (\<lambda>ibuf'. tgpf\<lparr>ima := ibuf'\<rparr>)
           (boundaryfill_loop ibuf maxpixel (fill_leak tgpf) stack))"

subsection \<open>\<^verbatim>\<open>gpencil_invert_image\<close>\<close>





subsection \<open>\<^verbatim>\<open>gpencil_erase_processed_area\<close>\<close>

definition blue_col :: rgba where "blue_col = RGBA 0 0 1 1"
definition clear_col :: rgba where "clear_col = RGBA 1 0 0 1"

text \<open>The C cast \<^verbatim>\<open>(int)f\<close> of a float truncates toward zero.\<close>

definition int_of_float :: "real \<Rightarrow> int" where
  "int_of_float f = (if 0 \<le> f then \<lfloor>f\<rfloor> else \<lceil>f\<rceil>)"

text \<open>First loop: the points of the stroke buffer (pairs \<open>(x, y)\<close> of a
  \<^verbatim>\<open>tGPspoint\<close>) are stamped blue.\<close>

fun mark_perimeter :: "ImBuf \<Rightarrow> (real \<times> real) list \<Rightarrow> ImBuf" where
  "mark_perimeter ibuf [] = ibuf"
| "mark_perimeter ibuf (point2D # rest) =
     (let image_idx = ibuf_x ibuf * int_of_float (snd point2D) + int_of_float (fst point2D)
      in mark_perimeter (set_pixel ibuf image_idx blue_col) rest)"

text \<open>Second loop, inner part: one row, from column \<open>idx\<close> on, with the current
  value of the flag \<^verbatim>\<open>clear\<close>.\<close>

function erase_row :: "ImBuf \<Rightarrow> int \<Rightarrow> int \<Rightarrow> bool \<Rightarrow> ImBuf" where
  "erase_row ibuf idy idx clear =
     (if idx < ibuf_x ibuf then
        (let image_idx = ibuf_x ibuf * idy + idx;
             rgba = get_pixel ibuf image_idx;
             clear = (if ch_b rgba = 1 then True
                      else if ch_r rgba = 1 then False
                      else clear);
             ibuf' = (if clear then set_pixel ibuf image_idx clear_col else ibuf)
         in erase_row ibuf' idy (idx + 1) clear)
      else ibuf)"
  by pat_completeness auto
termination
  by (relation "measure (\<lambda>(ibuf, idy, idx, clear). nat (ibuf_x ibuf - idx))")
     (auto simp: set_pixel_def)

declare erase_row.simps [simp del]

lemma erase_row_dims:
  "ibuf_x (erase_row ibuf idy idx clear) = ibuf_x ibuf
   \<and> ibuf_y (erase_row ibuf idy idx clear) = ibuf_y ibuf
   \<and> length (rect_float (erase_row ibuf idy idx clear)) = length (rect_float ibuf)"
proof (induction ibuf idy idx clear rule: erase_row.induct)
  case (1 ibuf idy idx clear)
  show ?case
  proof (cases "idx < ibuf_x ibuf")
    case True
    then show ?thesis
      using "1.IH" by (subst (1 2 3) erase_row.simps) (auto simp: Let_def set_pixel_def)
  next
    case False
    then show ?thesis by (subst (1 2 3) erase_row.simps) simp
  qed
qed

text \<open>Second loop, outer part: the rows from \<open>idy\<close> on; the flag starts at false in
  each row.\<close>

function erase_rows :: "ImBuf \<Rightarrow> int \<Rightarrow> ImBuf" where
  "erase_rows ibuf idy =
     (if idy < ibuf_y ibuf then erase_rows (erase_row ibuf idy 0 False) (idy + 1)
      else ibuf)"
  by pat_completeness auto
termination
  by (relation "measure (\<lambda>(ibuf, idy). nat (ibuf_y ibuf - idy))")
     (auto simp: erase_row_dims)

declare erase_rows.simps [simp del]

text \<open>The canvas after the first loop.\<close>

definition marked_image :: "tGPDfill \<Rightarrow> ImBuf" where
  "marked_image tgpf = mark_perimeter (ima tgpf) (take (nat (sbuffer_used tgpf)) (sbuffer tgpf))"

definition gpencil_erase_processed_area :: "tGPDfill \<Rightarrow> tGPDfill" where
  "gpencil_erase_processed_area tgpf =
     (if sbuffer_used tgpf = 0 then tgpf
      else tgpf\<lparr>ima := erase_rows (marked_image tgpf) 0\<rparr>)"

section \<open>Properties of the fill engine\<close>

lemma seed_search_none:
  "\<forall>j. i \<le> j \<and> j < maxpixel \<longrightarrow> ch_b (get_pixel ibuf j) \<noteq> 1 \<Longrightarrow>
   seed_search ibuf maxpixel i = - 1"
proof (induction ibuf maxpixel i rule: seed_search.induct)
  case (1 ibuf maxpixel i)
  show ?case
  proof (cases "i < maxpixel")
    case True
    with 1 show ?thesis by (subst seed_search.simps) simp
  next
    case False
    then show ?thesis by (subst seed_search.simps) simp
  qed
qed

lemma seed_search_first:
  "i \<le> k \<Longrightarrow> k < maxpixel \<Longrightarrow> ch_b (get_pixel ibuf k) = 1 \<Longrightarrow>
   \<forall>j. i \<le> j \<and> j < k \<longrightarrow> ch_b (get_pixel ibuf j) \<noteq> 1 \<Longrightarrow>
   seed_search ibuf maxpixel i = k"
proof (induction ibuf maxpixel i rule: seed_search.induct)
  case (1 ibuf maxpixel i)
  show ?case
  proof (cases "i = k")
    case True
    with 1 show ?thesis by (subst seed_search.simps) simp
  next
    case False
    with 1 have "i < k" "ch_b (get_pixel ibuf i) \<noteq> 1" by auto
    with 1 show ?thesis by (subst seed_search.simps) auto
  qed
qed

lemma seed_search_cases:
  "(seed_search ibuf maxpixel i = - 1 \<and> (\<forall>j. i \<le> j \<and> j < maxpixel \<longrightarrow> ch_b (get_pixel ibuf j) \<noteq> 1))
   \<or> (i \<le> seed_search ibuf maxpixel i \<and> seed_search ibuf maxpixel i < maxpixel
       \<and> ch_b (get_pixel ibuf (seed_search ibuf maxpixel i)) = 1
       \<and> (\<forall>j. i \<le> j \<and> j < seed_search ibuf maxpixel i \<longrightarrow> ch_b (get_pixel ibuf j) \<noteq> 1))"
proof (cases "\<exists>k. i \<le> k \<and> k < maxpixel \<and> ch_b (get_pixel ibuf k) = 1")
  case False
  then have "\<forall>j. i \<le> j \<and> j < maxpixel \<longrightarrow> ch_b (get_pixel ibuf j) \<noteq> 1" by blast
  then show ?thesis using seed_search_none by blast
next
  case True
  define P where "P n \<longleftrightarrow> i + int n < maxpixel \<and> ch_b (get_pixel ibuf (i + int n)) = 1" for n
  from True obtain k where k: "i \<le> k" "k < maxpixel" "ch_b (get_pixel ibuf k) = 1" by blast
  then have "P (nat (k - i))" by (simp add: P_def)
  then have ex: "\<exists>n. P n" ..
  define m where "m = (LEAST n. P n)"
  have Pm: "P m" unfolding m_def using ex by (rule LeastI_ex)
  have least: "\<And>n. n < m \<Longrightarrow> \<not> P n" unfolding m_def by (rule not_less_Least)
  have before: "\<forall>j. i \<le> j \<and> j < i + int m \<longrightarrow> ch_b (get_pixel ibuf j) \<noteq> 1"
  proof (intro allI impI)
    fix j assume j: "i \<le> j \<and> j < i + int m"
    then have "nat (j - i) < m" by linarith
    then have "\<not> P (nat (j - i))" by (rule least)
    moreover from j Pm have "i + int (nat (j - i)) < maxpixel" by (simp add: P_def)
    ultimately show "ch_b (get_pixel ibuf j) \<noteq> 1" using j by (simp add: P_def)
  qed
  from Pm have "i + int m < maxpixel" "ch_b (get_pixel ibuf (i + int m)) = 1"
    by (simp_all add: P_def)
  with before have "seed_search ibuf maxpixel i = i + int m"
    by (intro seed_search_first) simp_all
  with Pm before show ?thesis by (simp add: P_def)
qed

subsection \<open>Inverting the canvas\<close>










subsection \<open>Erasing the processed area\<close>

text \<open>Within row \<open>idy\<close> of a canvas, column \<open>k\<close> starts a span when its blue channel is 1,
  and stops one when it is red and not blue; \<open>span_clear\<close> is the value of the flag
  \<^verbatim>\<open>clear\<close> after the columns \<open>idx .. j\<close> have been read, starting from \<open>c\<close>.\<close>

definition row_start :: "ImBuf \<Rightarrow> int \<Rightarrow> int \<Rightarrow> bool" where
  "row_start ibuf idy k = (ch_b (get_pixel ibuf (ibuf_x ibuf * idy + k)) = 1)"

definition row_stop :: "ImBuf \<Rightarrow> int \<Rightarrow> int \<Rightarrow> bool" where
  "row_stop ibuf idy k =
     (ch_b (get_pixel ibuf (ibuf_x ibuf * idy + k)) \<noteq> 1
      \<and> ch_r (get_pixel ibuf (ibuf_x ibuf * idy + k)) = 1)"

definition span_clear :: "ImBuf \<Rightarrow> int \<Rightarrow> int \<Rightarrow> bool \<Rightarrow> int \<Rightarrow> bool" where
  "span_clear ibuf idy idx c j =
     ((\<exists>i. idx \<le> i \<and> i \<le> j \<and> row_start ibuf idy i
           \<and> (\<forall>k. i < k \<and> k \<le> j \<longrightarrow> \<not> row_stop ibuf idy k))
      \<or> (c \<and> (\<forall>k. idx \<le> k \<and> k \<le> j \<longrightarrow> \<not> row_stop ibuf idy k)))"

definition flag_step :: "ImBuf \<Rightarrow> int \<Rightarrow> int \<Rightarrow> bool \<Rightarrow> bool" where
  "flag_step ibuf idy idx c =
     (if row_start ibuf idy idx then True else if row_stop ibuf idy idx then False else c)"

lemma span_clear_here: "span_clear orig idy idx c idx = flag_step orig idy idx c"
  unfolding span_clear_def flag_step_def row_stop_def row_start_def
  by force

lemma span_clear_next:
  "idx < j \<Longrightarrow> span_clear orig idy idx c j = span_clear orig idy (idx + 1) (flag_step orig idy idx c) j"
proof -
  assume lt: "idx < j"
  have split: "(idx \<le> i) = (i = idx \<or> idx + 1 \<le> i)" for i by linarith
  have stopstart: "row_stop orig idy idx \<Longrightarrow> \<not> row_start orig idy idx"
    by (simp add: row_stop_def row_start_def)
  show ?thesis
    unfolding span_clear_def flag_step_def using lt stopstart
    by (simp only: split) auto
qed

lemma get_set_pixel_other:
  "0 \<le> n \<Longrightarrow> 0 \<le> m \<Longrightarrow> n \<noteq> m \<Longrightarrow> get_pixel (set_pixel ib m col) n = get_pixel ib n"
  by (simp add: get_pixel_def set_pixel_def)

lemma get_set_pixel_same:
  "0 \<le> m \<Longrightarrow> m < int (length (rect_float ib)) \<Longrightarrow> get_pixel (set_pixel ib m col) m = col"
  by (simp add: get_pixel_def set_pixel_def)


lemma erase_row_pixels:
  assumes "0 \<le> idx" "0 \<le> ibuf_x ib * idy"
    and "ibuf_x ib * idy + ibuf_x ib \<le> int (length (rect_float ib))"
    and "ibuf_x orig = ibuf_x ib"
    and "\<forall>j. idx \<le> j \<and> j < ibuf_x ib \<longrightarrow>
           get_pixel ib (ibuf_x ib * idy + j) = get_pixel orig (ibuf_x ib * idy + j)"
  shows "(\<forall>j. idx \<le> j \<and> j < ibuf_x ib \<longrightarrow>
            get_pixel (erase_row ib idy idx c) (ibuf_x ib * idy + j) =
              (if span_clear orig idy idx c j then clear_col
               else get_pixel orig (ibuf_x ib * idy + j)))
       \<and> (\<forall>n. 0 \<le> n \<and> (\<forall>j. idx \<le> j \<and> j < ibuf_x ib \<longrightarrow> n \<noteq> ibuf_x ib * idy + j) \<longrightarrow>
            get_pixel (erase_row ib idy idx c) n = get_pixel ib n)"
  using assms
proof (induction ib idy idx c rule: erase_row.induct)
  case (1 ib idy idx c)
  let ?x = "ibuf_x ib"
  let ?here = "?x * idy + idx"
  show ?case
  proof (cases "idx < ?x")
    case False
    then show ?thesis by (subst (1 2) erase_row.simps) auto
  next
    case True
    define c' where "c' = flag_step orig idy idx c"
    define ib' where "ib' = (if c' then set_pixel ib ?here clear_col else ib)"
    from "1.prems" True have here_orig: "get_pixel ib ?here = get_pixel orig ?here" by simp
    have c'_eq: "c' = (if ch_b (get_pixel ib ?here) = 1 then True
                       else if ch_r (get_pixel ib ?here) = 1 then False else c)"
      using here_orig "1.prems"(4)
      by (simp add: c'_def flag_step_def row_start_def row_stop_def)
    have unfold: "erase_row ib idy idx c = erase_row ib' idy (idx + 1) c'"
      using True by (subst erase_row.simps) (simp add: Let_def ib'_def c'_eq)
    have dims: "ibuf_x ib' = ?x" "length (rect_float ib') = length (rect_float ib)"
      by (simp_all add: ib'_def set_pixel_def)
    have here_range: "0 \<le> ?here" "?here < int (length (rect_float ib))"
      using "1.prems" True by linarith+
    have agree': "\<forall>j. idx + 1 \<le> j \<and> j < ibuf_x ib' \<longrightarrow>
           get_pixel ib' (ibuf_x ib' * idy + j) = get_pixel orig (ibuf_x ib' * idy + j)"
    proof (intro allI impI)
      fix j assume j: "idx + 1 \<le> j \<and> j < ibuf_x ib'"
      with "1.prems" have "0 \<le> ?x * idy + j" "?x * idy + j \<noteq> ?here" by linarith+
      with here_range have "get_pixel ib' (?x * idy + j) = get_pixel ib (?x * idy + j)"
        by (simp add: ib'_def get_set_pixel_other)
      with j "1.prems" dims show "get_pixel ib' (ibuf_x ib' * idy + j) = get_pixel orig (ibuf_x ib' * idy + j)"
        by simp
    qed
    have IH: "(\<forall>j. idx + 1 \<le> j \<and> j < ibuf_x ib' \<longrightarrow>
            get_pixel (erase_row ib' idy (idx + 1) c') (ibuf_x ib' * idy + j) =
              (if span_clear orig idy (idx + 1) c' j then clear_col
               else get_pixel orig (ibuf_x ib' * idy + j)))
       \<and> (\<forall>n. 0 \<le> n \<and> (\<forall>j. idx + 1 \<le> j \<and> j < ibuf_x ib' \<longrightarrow> n \<noteq> ibuf_x ib' * idy + j) \<longrightarrow>
            get_pixel (erase_row ib' idy (idx + 1) c') n = get_pixel ib' n)"
    proof (rule "1.IH" [OF True refl refl])
      show "c' = (if ch_b (get_pixel ib ?here) = 1 then True
                       else if ch_r (get_pixel ib ?here) = 1 then False else c)"
        by (rule c'_eq)
      show "ib' = (if c' then set_pixel ib ?here clear_col else ib)" by (rule ib'_def)
      show "0 \<le> idx + 1" using "1.prems" by simp
      show "0 \<le> ibuf_x ib' * idy" using "1.prems" dims by simp
      show "ibuf_x ib' * idy + ibuf_x ib' \<le> int (length (rect_float ib'))"
        using "1.prems" dims by simp
      show "ibuf_x orig = ibuf_x ib'" using "1.prems" dims by simp
      show "\<forall>j. idx + 1 \<le> j \<and> j < ibuf_x ib' \<longrightarrow>
           get_pixel ib' (ibuf_x ib' * idy + j) = get_pixel orig (ibuf_x ib' * idy + j)"
        by (rule agree')
    qed
    have here_res: "get_pixel (erase_row ib' idy (idx + 1) c') ?here =
        (if c' then clear_col else get_pixel orig ?here)"
    proof -
      have "\<forall>j. idx + 1 \<le> j \<and> j < ibuf_x ib' \<longrightarrow> ?here \<noteq> ibuf_x ib' * idy + j"
        using dims by simp
      with IH here_range have "get_pixel (erase_row ib' idy (idx + 1) c') ?here = get_pixel ib' ?here"
        by blast
      also have "\<dots> = (if c' then clear_col else get_pixel orig ?here)"
        using here_range here_orig by (simp add: ib'_def get_set_pixel_same)
      finally show ?thesis .
    qed
    have part1: "get_pixel (erase_row ib idy idx c) (?x * idy + j) =
              (if span_clear orig idy idx c j then clear_col
               else get_pixel orig (?x * idy + j))"
      if j: "idx \<le> j \<and> j < ?x" for j
    proof (cases "j = idx")
      case True
      then show ?thesis using here_res unfold by (simp add: span_clear_here c'_def)
    next
      case False
      with j have lt: "idx < j" by simp
      with j IH dims have "get_pixel (erase_row ib' idy (idx + 1) c') (?x * idy + j) =
              (if span_clear orig idy (idx + 1) c' j then clear_col
               else get_pixel orig (?x * idy + j))" by simp
      then show ?thesis using span_clear_next [OF lt, of orig idy c] unfold by (simp add: c'_def)
    qed
    have part2: "get_pixel (erase_row ib idy idx c) n = get_pixel ib n"
      if n: "0 \<le> n \<and> (\<forall>j. idx \<le> j \<and> j < ?x \<longrightarrow> n \<noteq> ?x * idy + j)" for n
    proof -
      from n True have ne: "n \<noteq> ?here" by blast
      from n have "\<forall>j. idx + 1 \<le> j \<and> j < ibuf_x ib' \<longrightarrow> n \<noteq> ibuf_x ib' * idy + j"
        using dims by simp
      with IH n have "get_pixel (erase_row ib' idy (idx + 1) c') n = get_pixel ib' n" by blast
      also have "\<dots> = get_pixel ib n"
        using n ne here_range by (simp add: ib'_def get_set_pixel_other)
      finally show ?thesis using unfold by simp
    qed
    from part1 part2 show ?thesis by blast
  qed
qed


lemma pixel_index_inj:
  fixes x :: int
  assumes "0 \<le> j" "j < x" "0 \<le> j'" "j' < x" "x * r + j = x * r' + j'"
  shows "r = r' \<and> j = j'"
proof -
  from assms have x: "x \<noteq> 0" by linarith
  have "(x * r + j) div x = r + j div x" using x by simp
  then have 1: "(x * r + j) div x = r" using assms by simp
  have "(x * r' + j') div x = r' + j' div x" using x by simp
  then have 2: "(x * r' + j') div x = r'" using assms by simp
  from 1 2 assms(5) have "r = r'" by (simp only:)
  with assms(5) show ?thesis by simp
qed

lemma erase_rows_pixels:
  assumes "0 < ibuf_x ib" "0 \<le> idy"
    and "int (length (rect_float ib)) = ibuf_x ib * ibuf_y ib"
    and "ibuf_x orig = ibuf_x ib"
    and "\<forall>r j. idy \<le> r \<and> r < ibuf_y ib \<and> 0 \<le> j \<and> j < ibuf_x ib \<longrightarrow>
           get_pixel ib (ibuf_x ib * r + j) = get_pixel orig (ibuf_x ib * r + j)"
  shows "(\<forall>r j. idy \<le> r \<and> r < ibuf_y ib \<and> 0 \<le> j \<and> j < ibuf_x ib \<longrightarrow>
            get_pixel (erase_rows ib idy) (ibuf_x ib * r + j) =
              (if span_clear orig r 0 False j then clear_col
               else get_pixel orig (ibuf_x ib * r + j)))
       \<and> (\<forall>r j. 0 \<le> r \<and> r < idy \<and> 0 \<le> j \<and> j < ibuf_x ib \<longrightarrow>
            get_pixel (erase_rows ib idy) (ibuf_x ib * r + j) = get_pixel ib (ibuf_x ib * r + j))"
  using assms
proof (induction ib idy rule: erase_rows.induct)
  case (1 ib idy)
  let ?x = "ibuf_x ib"
  show ?case
  proof (cases "idy < ibuf_y ib")
    case False
    then show ?thesis by (subst (1 2) erase_rows.simps) auto
  next
    case True
    define ib' where "ib' = erase_row ib idy 0 False"
    have unfold: "erase_rows ib idy = erase_rows ib' (idy + 1)"
      using True by (subst erase_rows.simps) (simp add: ib'_def)
    have dims: "ibuf_x ib' = ?x" "ibuf_y ib' = ibuf_y ib"
      "length (rect_float ib') = length (rect_float ib)"
      by (simp_all add: ib'_def erase_row_dims)
    have xy: "0 \<le> ?x * idy" using "1.prems" by simp
    have "?x * (idy + 1) \<le> ?x * ibuf_y ib"
      using True "1.prems"(1) by (intro mult_left_mono) simp_all
    then have fits: "?x * idy + ?x \<le> int (length (rect_float ib))"
      using "1.prems"(3) by (simp add: algebra_simps)
    have row_agree: "\<forall>j. 0 \<le> j \<and> j < ?x \<longrightarrow>
           get_pixel ib (?x * idy + j) = get_pixel orig (?x * idy + j)"
      using "1.prems"(5) True by simp
    have row: "(\<forall>j. 0 \<le> j \<and> j < ?x \<longrightarrow>
            get_pixel ib' (?x * idy + j) =
              (if span_clear orig idy 0 False j then clear_col
               else get_pixel orig (?x * idy + j)))
       \<and> (\<forall>n. 0 \<le> n \<and> (\<forall>j. 0 \<le> j \<and> j < ?x \<longrightarrow> n \<noteq> ?x * idy + j) \<longrightarrow>
            get_pixel ib' n = get_pixel ib n)"
      unfolding ib'_def
      by (rule erase_row_pixels [OF _ xy fits "1.prems"(4) row_agree]) simp
    have other: "get_pixel ib' (?x * r + j) = get_pixel ib (?x * r + j)"
      if "0 \<le> r" "r \<noteq> idy" "0 \<le> j" "j < ?x" for r j
    proof -
      have "?x * r + j \<noteq> ?x * idy + j'" if "0 \<le> j' \<and> j' < ?x" for j'
        using pixel_index_inj [of j ?x j' r idy] that \<open>r \<noteq> idy\<close> \<open>0 \<le> j\<close> \<open>j < ?x\<close> by blast
      moreover have "0 \<le> ?x * r + j" using that "1.prems"(1) by simp
      ultimately show ?thesis using row by blast
    qed
    have IH: "(\<forall>r j. idy + 1 \<le> r \<and> r < ibuf_y ib' \<and> 0 \<le> j \<and> j < ibuf_x ib' \<longrightarrow>
            get_pixel (erase_rows ib' (idy + 1)) (ibuf_x ib' * r + j) =
              (if span_clear orig r 0 False j then clear_col
               else get_pixel orig (ibuf_x ib' * r + j)))
       \<and> (\<forall>r j. 0 \<le> r \<and> r < idy + 1 \<and> 0 \<le> j \<and> j < ibuf_x ib' \<longrightarrow>
            get_pixel (erase_rows ib' (idy + 1)) (ibuf_x ib' * r + j) = get_pixel ib' (ibuf_x ib' * r + j))"
    proof (rule "1.IH" [OF True, folded ib'_def])
      show "0 < ibuf_x ib'" using "1.prems" dims by simp
      show "0 \<le> idy + 1" using "1.prems" by simp
      show "int (length (rect_float ib')) = ibuf_x ib' * ibuf_y ib'" using "1.prems" dims by simp
      show "ibuf_x orig = ibuf_x ib'" using "1.prems" dims by simp
      show "\<forall>r j. idy + 1 \<le> r \<and> r < ibuf_y ib' \<and> 0 \<le> j \<and> j < ibuf_x ib' \<longrightarrow>
           get_pixel ib' (ibuf_x ib' * r + j) = get_pixel orig (ibuf_x ib' * r + j)"
      proof (intro allI impI)
        fix r j assume rj: "idy + 1 \<le> r \<and> r < ibuf_y ib' \<and> 0 \<le> j \<and> j < ibuf_x ib'"
        with "1.prems"(2) dims have "get_pixel ib' (?x * r + j) = get_pixel ib (?x * r + j)"
          by (intro other) simp_all
        with rj "1.prems"(5) dims show "get_pixel ib' (ibuf_x ib' * r + j) = get_pixel orig (ibuf_x ib' * r + j)"
          by simp
      qed
    qed
    have part1: "get_pixel (erase_rows ib idy) (?x * r + j) =
              (if span_clear orig r 0 False j then clear_col else get_pixel orig (?x * r + j))"
      if rj: "idy \<le> r \<and> r < ibuf_y ib \<and> 0 \<le> j \<and> j < ?x" for r j
    proof (cases "r = idy")
      case True
      with rj "1.prems"(2) IH dims
      have "get_pixel (erase_rows ib' (idy + 1)) (?x * r + j) = get_pixel ib' (?x * r + j)"
        by simp
      with True rj row unfold show ?thesis by simp
    next
      case False
      with rj IH dims unfold show ?thesis by simp
    qed
    have part2: "get_pixel (erase_rows ib idy) (?x * r + j) = get_pixel ib (?x * r + j)"
      if rj: "0 \<le> r \<and> r < idy \<and> 0 \<le> j \<and> j < ?x" for r j
    proof -
      from rj IH dims
      have "get_pixel (erase_rows ib' (idy + 1)) (?x * r + j) = get_pixel ib' (?x * r + j)"
        by simp
      also from rj have "\<dots> = get_pixel ib (?x * r + j)" by (intro other) simp_all
      finally show ?thesis using unfold by simp
    qed
    from part1 part2 show ?thesis by blast
  qed
qed

lemma mark_perimeter_dims:
  "ibuf_x (mark_perimeter ibuf pts) = ibuf_x ibuf
   \<and> ibuf_y (mark_perimeter ibuf pts) = ibuf_y ibuf
   \<and> length (rect_float (mark_perimeter ibuf pts)) = length (rect_float ibuf)"
  by (induction ibuf pts rule: mark_perimeter.induct) (simp_all add: Let_def set_pixel_def)

text \<open>
  Claim C9, as amended. After the stroke points have been stamped blue, the row scan
  sets to the clear colour every pixel from a blue pixel on (that pixel included) up to,
  and not including, the next pixel of the row that is red and not blue; every other
  pixel keeps the value it had after the stamping.
\<close>

theorem erase_processed_area_spans:
  assumes "sbuffer_used tgpf \<noteq> 0" "0 < ibuf_x (ima tgpf)"
    and "int (length (rect_float (ima tgpf))) = ibuf_x (ima tgpf) * ibuf_y (ima tgpf)"
    and "0 \<le> idy" "idy < ibuf_y (ima tgpf)" "0 \<le> idx" "idx < ibuf_x (ima tgpf)"
  shows "get_pixel (ima (gpencil_erase_processed_area tgpf)) (ibuf_x (ima tgpf) * idy + idx) =
     (if \<exists>i. 0 \<le> i \<and> i \<le> idx \<and> row_start (marked_image tgpf) idy i
              \<and> (\<forall>k. i < k \<and> k \<le> idx \<longrightarrow> \<not> row_stop (marked_image tgpf) idy k)
      then clear_col
      else get_pixel (marked_image tgpf) (ibuf_x (ima tgpf) * idy + idx))"
proof -
  let ?m = "marked_image tgpf"
  have dims: "ibuf_x ?m = ibuf_x (ima tgpf)" "ibuf_y ?m = ibuf_y (ima tgpf)"
    "length (rect_float ?m) = length (rect_float (ima tgpf))"
    by (simp_all add: marked_image_def mark_perimeter_dims)
  have "(\<forall>r j. 0 \<le> r \<and> r < ibuf_y ?m \<and> 0 \<le> j \<and> j < ibuf_x ?m \<longrightarrow>
            get_pixel (erase_rows ?m 0) (ibuf_x ?m * r + j) =
              (if span_clear ?m r 0 False j then clear_col
               else get_pixel ?m (ibuf_x ?m * r + j)))
       \<and> (\<forall>r j. 0 \<le> r \<and> r < 0 \<and> 0 \<le> j \<and> j < ibuf_x ?m \<longrightarrow>
            get_pixel (erase_rows ?m 0) (ibuf_x ?m * r + j) = get_pixel ?m (ibuf_x ?m * r + j))"
    by (rule erase_rows_pixels) (use assms dims in simp_all)
  with assms dims have "get_pixel (erase_rows ?m 0) (ibuf_x (ima tgpf) * idy + idx) =
      (if span_clear ?m idy 0 False idx then clear_col
       else get_pixel ?m (ibuf_x (ima tgpf) * idy + idx))" by simp
  with assms(1) show ?thesis
    by (simp add: gpencil_erase_processed_area_def span_clear_def)
qed

definition canvas_stroke_row :: tGPDfill where
  "canvas_stroke_row =
     \<lparr>ima = \<lparr>ibuf_x = 5, ibuf_y = 1,
              rect_float = [RGBA 0 0 0 0, RGBA 0 1 0 1, RGBA 0 0 0 0, RGBA 1 0 0 0,
                            RGBA 0 0 0 0]\<rparr>,
      fill_leak = 0, sbuffer = [(3 / 2, 0)], sbuffer_used = 1\<rparr>"

lemma marked_canvas_stroke_row:
  "marked_image canvas_stroke_row =
     \<lparr>ibuf_x = 5, ibuf_y = 1,
      rect_float = [RGBA 0 0 0 0, RGBA 0 0 1 1, RGBA 0 0 0 0, RGBA 1 0 0 0, RGBA 0 0 0 0]\<rparr>"
  by (simp add: marked_image_def canvas_stroke_row_def int_of_float_def set_pixel_def
      blue_col_def)


lemma erase_row_step:
  "idx < ibuf_x ibuf \<Longrightarrow>
   erase_row ibuf idy idx clear =
     erase_row
       (if (if ch_b (get_pixel ibuf (ibuf_x ibuf * idy + idx)) = 1 then True
            else if ch_r (get_pixel ibuf (ibuf_x ibuf * idy + idx)) = 1 then False else clear)
        then set_pixel ibuf (ibuf_x ibuf * idy + idx) clear_col else ibuf)
       idy (idx + 1)
       (if ch_b (get_pixel ibuf (ibuf_x ibuf * idy + idx)) = 1 then True
        else if ch_r (get_pixel ibuf (ibuf_x ibuf * idy + idx)) = 1 then False else clear)"
  by (subst erase_row.simps) (simp add: Let_def)

lemma erase_row_stop: "\<not> idx < ibuf_x ibuf \<Longrightarrow> erase_row ibuf idy idx clear = ibuf"
  by (subst erase_row.simps) simp

lemma erase_rows_step:
  "idy < ibuf_y ibuf \<Longrightarrow> erase_rows ibuf idy = erase_rows (erase_row ibuf idy 0 False) (idy + 1)"
  by (subst erase_rows.simps) simp

lemma erase_rows_stop: "\<not> idy < ibuf_y ibuf \<Longrightarrow> erase_rows ibuf idy = ibuf"
  by (subst erase_rows.simps) simp

lemma erase_canvas_stroke_row:
  "ima (gpencil_erase_processed_area canvas_stroke_row) =
     \<lparr>ibuf_x = 5, ibuf_y = 1,
      rect_float = [RGBA 0 0 0 0, RGBA 1 0 0 1, RGBA 1 0 0 1, RGBA 1 0 0 0, RGBA 0 0 0 0]\<rparr>"
proof -
  have "sbuffer_used canvas_stroke_row \<noteq> 0" by (simp add: canvas_stroke_row_def)
  then show ?thesis
    by (simp add: gpencil_erase_processed_area_def marked_canvas_stroke_row
        erase_rows_step erase_rows_stop erase_row_step erase_row_stop
        get_pixel_def set_pixel_def clear_col_def)
qed

theorem erase_processed_area_spans_witness:
  "get_pixel (ima (gpencil_erase_processed_area canvas_stroke_row)) 2 = clear_col
   \<and> get_pixel (marked_image canvas_stroke_row) 2 = RGBA 0 0 0 0"
proof -
  have start: "row_start (marked_image canvas_stroke_row) 0 1"
    by (simp add: marked_canvas_stroke_row row_start_def get_pixel_def)
  have nostop: "\<not> row_stop (marked_image canvas_stroke_row) 0 2"
    by (simp add: marked_canvas_stroke_row row_stop_def get_pixel_def)
  have "\<forall>k::int. 1 < k \<and> k \<le> 2 \<longrightarrow> \<not> row_stop (marked_image canvas_stroke_row) 0 k"
  proof (intro allI impI)
    fix k :: int assume "1 < k \<and> k \<le> 2"
    then have "k = 2" by linarith
    with nostop show "\<not> row_stop (marked_image canvas_stroke_row) 0 k" by simp
  qed
  with start have ex: "\<exists>i. 0 \<le> i \<and> i \<le> 2 \<and> row_start (marked_image canvas_stroke_row) 0 i
     \<and> (\<forall>k. i < k \<and> k \<le> 2 \<longrightarrow> \<not> row_stop (marked_image canvas_stroke_row) 0 k)"
    by (intro exI [of _ 1]) simp
  have "get_pixel (ima (gpencil_erase_processed_area canvas_stroke_row))
          (ibuf_x (ima canvas_stroke_row) * 0 + 2) =
     (if \<exists>i. 0 \<le> i \<and> i \<le> 2 \<and> row_start (marked_image canvas_stroke_row) 0 i
              \<and> (\<forall>k. i < k \<and> k \<le> 2 \<longrightarrow> \<not> row_stop (marked_image canvas_stroke_row) 0 k)
      then clear_col
      else get_pixel (marked_image canvas_stroke_row) (ibuf_x (ima canvas_stroke_row) * 0 + 2))"
    by (rule erase_processed_area_spans) (simp_all add: canvas_stroke_row_def)
  with ex have "get_pixel (ima (gpencil_erase_processed_area canvas_stroke_row)) 2 = clear_col"
    by simp
  then show ?thesis by (simp add: marked_canvas_stroke_row get_pixel_def)
qed

text \<open>
  The claim as it is written says that the blue entry pixel is not cleared. On the
  one-row canvas above, pixel 1 is the blue entry after the stamping, and the scan
  overwrites it with the clear colour.
\<close>

theorem erase_processed_area_counterexample:
  "get_pixel (marked_image canvas_stroke_row) 1 = blue_col
   \<and> get_pixel (ima (gpencil_erase_processed_area canvas_stroke_row)) 1 = clear_col
   \<and> clear_col \<noteq> blue_col"
  by (simp add: marked_canvas_stroke_row erase_canvas_stroke_row get_pixel_def
      blue_col_def clear_col_def)

subsection \<open>Leak suppression in the flood fill\<close>














lemma contact_pixels_set:
  "p \<in> set (contact_pixels ibuf maxpixel leak v stack) \<Longrightarrow>
   p \<in> set stack
   \<or> (p = v - 1 \<and> 0 \<le> v - 1 \<and> \<not> is_leak_narrow ibuf maxpixel leak v LEAK_HORZ)
   \<or> (p = v + 1 \<and> v + 1 \<le> maxpixel \<and> \<not> is_leak_narrow ibuf maxpixel leak v LEAK_HORZ)
   \<or> (p = v + ibuf_x ibuf \<and> v + ibuf_x ibuf \<le> maxpixel)
   \<or> (p = v - ibuf_x ibuf \<and> 0 \<le> v - ibuf_x ibuf)"
  by (auto simp: contact_pixels_def push_if_def Let_def split: if_splits)





text \<open>Evaluation rules for concrete canvases.\<close>

lemma boundaryfill_loop_fill:
  "0 \<le> v \<Longrightarrow> v < int (length (rect_float ibuf)) \<Longrightarrow> fillable (get_pixel ibuf v) \<Longrightarrow>
   boundaryfill_loop ibuf maxpixel leak (v # stack) =
     boundaryfill_loop (set_pixel ibuf v fill_col) maxpixel leak
       (contact_pixels (set_pixel ibuf v fill_col) maxpixel leak v stack)"
  by (subst boundaryfill_loop.simps) simp

lemma boundaryfill_loop_skip:
  "0 \<le> v \<Longrightarrow> v < int (length (rect_float ibuf)) \<Longrightarrow> \<not> fillable (get_pixel ibuf v) \<Longrightarrow>
   boundaryfill_loop ibuf maxpixel leak (v # stack) = boundaryfill_loop ibuf maxpixel leak stack"
  by (subst boundaryfill_loop.simps) simp

lemma boundaryfill_loop_done: "boundaryfill_loop ibuf maxpixel leak [] = Some ibuf"
  by (simp add: boundaryfill_loop.simps)

lemma leak_top_step:
  "i \<le> limit \<Longrightarrow> leak_top ibuf maxpixel limit index i =
     (if index + ibuf_x ibuf * i \<le> maxpixel
      then (if ch_r (get_pixel ibuf (index + ibuf_x ibuf * i)) = 1 then True
            else leak_top ibuf maxpixel limit index (i + 1))
      else True)"
  by (subst leak_top.simps) (simp add: Let_def)

lemma leak_top_stop: "\<not> i \<le> limit \<Longrightarrow> leak_top ibuf maxpixel limit index i = False"
  by (subst leak_top.simps) simp

lemma leak_bottom_step:
  "i \<le> limit \<Longrightarrow> leak_bottom ibuf limit index i =
     (if index - ibuf_x ibuf * i \<ge> 0
      then (if ch_r (get_pixel ibuf (index - ibuf_x ibuf * i)) = 1 then True
            else leak_bottom ibuf limit index (i + 1))
      else True)"
  by (subst leak_bottom.simps) (simp add: Let_def)

lemma leak_bottom_stop: "\<not> i \<le> limit \<Longrightarrow> leak_bottom ibuf limit index i = False"
  by (subst leak_bottom.simps) simp

lemma leak_right_step:
  "i < limit \<Longrightarrow> leak_right ibuf lowpix limit index i =
     (if index - (limit - i) \<ge> lowpix
      then (if ch_r (get_pixel ibuf (index - (limit - i))) = 1 then True
            else leak_right ibuf lowpix limit index (i + 1))
      else True)"
  by (subst leak_right.simps) (simp add: Let_def)

lemma leak_right_stop: "\<not> i < limit \<Longrightarrow> leak_right ibuf lowpix limit index i = False"
  by (subst leak_right.simps) simp

lemma leak_left_step:
  "i < limit \<Longrightarrow> leak_left ibuf higpix limit index i =
     (if index + (limit - i) \<le> higpix
      then (if ch_r (get_pixel ibuf (index + (limit - i))) = 1 then True
            else leak_left ibuf higpix limit index (i + 1))
      else True)"
  by (subst leak_left.simps) (simp add: Let_def)

lemma leak_left_stop: "\<not> i < limit \<Longrightarrow> leak_left ibuf higpix limit index i = False"
  by (subst leak_left.simps) simp

lemma seed_search_step:
  "i < maxpixel \<Longrightarrow> seed_search ibuf maxpixel i =
     (if ch_b (get_pixel ibuf i) = 1 then i else seed_search ibuf maxpixel (i + 1))"
  by (subst seed_search.simps) simp

lemma seed_search_stop: "\<not> i < maxpixel \<Longrightarrow> seed_search ibuf maxpixel i = - 1"
  by (subst seed_search.simps) simp

lemmas fill_eval =
  boundaryfill_loop_fill boundaryfill_loop_skip boundaryfill_loop_done
  leak_top_step leak_top_stop leak_bottom_step leak_bottom_stop
  leak_right_step leak_right_stop leak_left_step leak_left_stop
  seed_search_step seed_search_stop
  is_leak_narrow_def contact_pixels_def push_if_def fillable_def fill_col_def
  get_pixel_def set_pixel_def LEAK_HORZ_def LEAK_VERT_def FILL_DEBUG_def Let_def
  seed_stack_def gpencil_boundaryfill_area_def











subsection \<open>The seed of the flood fill\<close>

text \<open>
  On a canvas whose buffer holds \<^verbatim>\<open>maxpixel + 1\<close> pixels or more, a stack of indices between
  0 and \<^verbatim>\<open>maxpixel\<close> stays such a stack, so the loop returns; it changes fillable pixels
  only.
\<close>

lemma contact_pixels_range:
  assumes "0 \<le> ibuf_x ibuf" "0 \<le> v" "v \<le> maxpixel"
    and "\<forall>p \<in> set stack. 0 \<le> p \<and> p \<le> maxpixel"
  shows "\<forall>p \<in> set (contact_pixels ibuf maxpixel leak v stack). 0 \<le> p \<and> p \<le> maxpixel"
proof
  fix p assume "p \<in> set (contact_pixels ibuf maxpixel leak v stack)"
  from contact_pixels_set [OF this] assms show "0 \<le> p \<and> p \<le> maxpixel" by auto
qed

lemma boundaryfill_loop_result:
  "0 \<le> ibuf_x ibuf \<Longrightarrow> maxpixel < int (length (rect_float ibuf)) \<Longrightarrow>
   \<forall>p \<in> set stack. 0 \<le> p \<and> p \<le> maxpixel \<Longrightarrow>
   \<exists>ibuf'. boundaryfill_loop ibuf maxpixel leak stack = Some ibuf'
     \<and> ibuf_x ibuf' = ibuf_x ibuf \<and> ibuf_y ibuf' = ibuf_y ibuf
     \<and> length (rect_float ibuf') = length (rect_float ibuf)
     \<and> (\<forall>n < length (rect_float ibuf). \<not> fillable (rect_float ibuf ! n) \<longrightarrow>
           rect_float ibuf' ! n = rect_float ibuf ! n)"
proof (induction ibuf maxpixel leak stack rule: boundaryfill_loop.induct)
  case (1 ibuf maxpixel leak)
  show ?case by (simp add: boundaryfill_loop.simps)
next
  case (2 ibuf maxpixel leak v stack)
  from "2.prems"(2,3) have v: "0 \<le> v" "v \<le> maxpixel" "v < int (length (rect_float ibuf))"
    and st: "\<forall>p \<in> set stack. 0 \<le> p \<and> p \<le> maxpixel" by simp_all
  from v have inr: "\<not> (v < 0 \<or> int (length (rect_float ibuf)) \<le> v)" by simp
  show ?case
  proof (cases "fillable (get_pixel ibuf v)")
    case False
    then have "boundaryfill_loop ibuf maxpixel leak (v # stack)
        = boundaryfill_loop ibuf maxpixel leak stack" by (rule boundaryfill_loop_skip [OF v(1,3)])
    with "2.IH"(2) [OF inr False "2.prems"(1,2) st] show ?thesis by simp
  next
    case True
    let ?ib = "set_pixel ibuf v fill_col"
    have x: "ibuf_x ?ib = ibuf_x ibuf" "ibuf_y ?ib = ibuf_y ibuf"
      and len: "length (rect_float ?ib) = length (rect_float ibuf)"
      by (simp_all add: set_pixel_def)
    from "2.prems"(1) x have x0: "0 \<le> ibuf_x ?ib" by simp
    from "2.prems"(2) len have mp: "maxpixel < int (length (rect_float ?ib))" by simp
    from contact_pixels_range [OF x0 v(1,2) st]
    have st1: "\<forall>p \<in> set (contact_pixels ?ib maxpixel leak v stack). 0 \<le> p \<and> p \<le> maxpixel" .
    from "2.IH"(1) [OF inr True x0 mp st1] obtain ibuf' where
      r: "boundaryfill_loop ?ib maxpixel leak (contact_pixels ?ib maxpixel leak v stack) = Some ibuf'"
        "ibuf_x ibuf' = ibuf_x ?ib" "ibuf_y ibuf' = ibuf_y ?ib"
        "length (rect_float ibuf') = length (rect_float ?ib)"
        "\<forall>n < length (rect_float ?ib). \<not> fillable (rect_float ?ib ! n) \<longrightarrow>
           rect_float ibuf' ! n = rect_float ?ib ! n"
      by (elim exE conjE)
    from True v have step: "boundaryfill_loop ibuf maxpixel leak (v # stack)
        = boundaryfill_loop ?ib maxpixel leak (contact_pixels ?ib maxpixel leak v stack)"
      by (intro boundaryfill_loop_fill) simp_all
    have "rect_float ibuf' ! n = rect_float ibuf ! n"
      if n: "n < length (rect_float ibuf)" "\<not> fillable (rect_float ibuf ! n)" for n
    proof -
      from True n(2) have "n \<noteq> nat v" by (auto simp: get_pixel_def)
      then have same: "rect_float ?ib ! n = rect_float ibuf ! n" by (simp add: set_pixel_def)
      with r(5) n len show ?thesis by simp
    qed
    with step r(1,2,3,4) x len show ?thesis by simp
  qed
qed

lemma boundaryfill_loop_seed:
  assumes "0 \<le> ibuf_x ibuf" "maxpixel < int (length (rect_float ibuf))"
    and "0 \<le> v" "v \<le> maxpixel"
  shows "\<exists>ibuf'. boundaryfill_loop ibuf maxpixel leak [v] = Some ibuf'
     \<and> (fillable (get_pixel ibuf v) \<longrightarrow> get_pixel ibuf' v = fill_col)
     \<and> (\<not> fillable (get_pixel ibuf v) \<longrightarrow> ibuf' = ibuf)"
proof (cases "fillable (get_pixel ibuf v)")
  case False
  from assms have "v < int (length (rect_float ibuf))" by simp
  with assms(3) False have "boundaryfill_loop ibuf maxpixel leak [v] = Some ibuf"
    by (simp add: boundaryfill_loop_skip boundaryfill_loop_done)
  with False show ?thesis by simp
next
  case True
  let ?ib = "set_pixel ibuf v fill_col"
  from assms have v: "v < int (length (rect_float ibuf))" by simp
  have x0: "0 \<le> ibuf_x ?ib" and mp: "maxpixel < int (length (rect_float ?ib))"
    using assms(1,2) by (simp_all add: set_pixel_def)
  have "\<forall>p \<in> set ([]::int list). 0 \<le> p \<and> p \<le> maxpixel" by simp
  from contact_pixels_range [OF x0 assms(3,4) this]
  have st: "\<forall>p \<in> set (contact_pixels ?ib maxpixel leak v []). 0 \<le> p \<and> p \<le> maxpixel" .
  from boundaryfill_loop_result [OF x0 mp st, of leak] obtain ibuf' where
    r: "boundaryfill_loop ?ib maxpixel leak (contact_pixels ?ib maxpixel leak v []) = Some ibuf'"
      "\<forall>n < length (rect_float ?ib). \<not> fillable (rect_float ?ib ! n) \<longrightarrow>
           rect_float ibuf' ! n = rect_float ?ib ! n"
    by (elim exE conjE)
  from assms(3) v have nv: "nat v < length (rect_float ?ib)" "rect_float ?ib ! nat v = fill_col"
    by (simp_all add: set_pixel_def)
  with r(2) have "rect_float ibuf' ! nat v = fill_col"
    by (simp add: fillable_def fill_col_def)
  then have "get_pixel ibuf' v = fill_col" by (simp add: get_pixel_def)
  moreover from True assms(3) v have "boundaryfill_loop ibuf maxpixel leak [v]
      = boundaryfill_loop ?ib maxpixel leak (contact_pixels ?ib maxpixel leak v [])"
    by (intro boundaryfill_loop_fill) simp_all
  ultimately show ?thesis using r(1) True by simp
qed

text \<open>
  Claim C10. The seed of the flood fill is found by scanning the pixel indices
  \<open>0 .. width * height - 2\<close> upwards for the first pixel whose blue channel is 1 (the
  click position itself is not consulted). When there is none in that range the seed
  index stays \<open>-1\<close>, the stack is empty, the loop body never runs and the canvas is
  returned as it was. When there is one, the fill is the loop run on the stack that holds
  that index alone; on a canvas whose buffer has \<open>width * height\<close> pixels it returns, it
  has painted the seed pixel with the fill colour when that pixel was neither red nor green,
  and it has left the canvas as it was otherwise.
\<close>

theorem boundaryfill_seed_scan:
  "((seed_search (ima tgpf) (ibuf_x (ima tgpf) * ibuf_y (ima tgpf) - 1) 0 = - 1
      \<and> (\<forall>j. 0 \<le> j \<and> j < ibuf_x (ima tgpf) * ibuf_y (ima tgpf) - 1
             \<longrightarrow> ch_b (get_pixel (ima tgpf) j) \<noteq> 1))
    \<or> (0 \<le> seed_search (ima tgpf) (ibuf_x (ima tgpf) * ibuf_y (ima tgpf) - 1) 0
       \<and> seed_search (ima tgpf) (ibuf_x (ima tgpf) * ibuf_y (ima tgpf) - 1) 0
           < ibuf_x (ima tgpf) * ibuf_y (ima tgpf) - 1
       \<and> ch_b (get_pixel (ima tgpf)
             (seed_search (ima tgpf) (ibuf_x (ima tgpf) * ibuf_y (ima tgpf) - 1) 0)) = 1
       \<and> (\<forall>j. 0 \<le> j
               \<and> j < seed_search (ima tgpf) (ibuf_x (ima tgpf) * ibuf_y (ima tgpf) - 1) 0
             \<longrightarrow> ch_b (get_pixel (ima tgpf) j) \<noteq> 1)
       \<and> seed_stack (ima tgpf) (ibuf_x (ima tgpf) * ibuf_y (ima tgpf) - 1)
           = [seed_search (ima tgpf) (ibuf_x (ima tgpf) * ibuf_y (ima tgpf) - 1) 0]))
   \<and> ((\<forall>j. 0 \<le> j \<and> j < ibuf_x (ima tgpf) * ibuf_y (ima tgpf) - 1
             \<longrightarrow> ch_b (get_pixel (ima tgpf) j) \<noteq> 1)
        \<longrightarrow> seed_stack (ima tgpf) (ibuf_x (ima tgpf) * ibuf_y (ima tgpf) - 1) = []
            \<and> gpencil_boundaryfill_area tgpf = Some tgpf)
   \<and> (0 \<le> seed_search (ima tgpf) (ibuf_x (ima tgpf) * ibuf_y (ima tgpf) - 1) 0
        \<longrightarrow> gpencil_boundaryfill_area tgpf =
              map_option (\<lambda>ibuf'. tgpf\<lparr>ima := ibuf'\<rparr>)
                (boundaryfill_loop (ima tgpf) (ibuf_x (ima tgpf) * ibuf_y (ima tgpf) - 1)
                   (fill_leak tgpf)
                   [seed_search (ima tgpf) (ibuf_x (ima tgpf) * ibuf_y (ima tgpf) - 1) 0]))
   \<and> (0 \<le> seed_search (ima tgpf) (ibuf_x (ima tgpf) * ibuf_y (ima tgpf) - 1) 0
       \<and> 0 \<le> ibuf_x (ima tgpf)
       \<and> int (length (rect_float (ima tgpf))) = ibuf_x (ima tgpf) * ibuf_y (ima tgpf)
        \<longrightarrow> (\<exists>t. gpencil_boundaryfill_area tgpf = Some t
              \<and> (fillable (get_pixel (ima tgpf)
                     (seed_search (ima tgpf) (ibuf_x (ima tgpf) * ibuf_y (ima tgpf) - 1) 0))
                   \<longrightarrow> get_pixel (ima t)
                         (seed_search (ima tgpf) (ibuf_x (ima tgpf) * ibuf_y (ima tgpf) - 1) 0)
                       = fill_col)
              \<and> (\<not> fillable (get_pixel (ima tgpf)
                     (seed_search (ima tgpf) (ibuf_x (ima tgpf) * ibuf_y (ima tgpf) - 1) 0))
                   \<longrightarrow> t = tgpf)))"
proof -
  let ?ibuf = "ima tgpf"
  let ?mp = "ibuf_x ?ibuf * ibuf_y ?ibuf - 1"
  let ?seed = "seed_search ?ibuf ?mp 0"
  have first: "(?seed = - 1
      \<and> (\<forall>j. 0 \<le> j \<and> j < ?mp \<longrightarrow> ch_b (get_pixel ?ibuf j) \<noteq> 1))
    \<or> (0 \<le> ?seed \<and> ?seed < ?mp
       \<and> ch_b (get_pixel ?ibuf ?seed) = 1
       \<and> (\<forall>j. 0 \<le> j \<and> j < ?seed \<longrightarrow> ch_b (get_pixel ?ibuf j) \<noteq> 1)
       \<and> seed_stack ?ibuf ?mp = [?seed])"
    using seed_search_cases [of ?ibuf ?mp 0]
    by (auto simp: seed_stack_def FILL_DEBUG_def Let_def)
  have second: "seed_stack ?ibuf ?mp = [] \<and> gpencil_boundaryfill_area tgpf = Some tgpf"
    if none: "\<forall>j. 0 \<le> j \<and> j < ?mp \<longrightarrow> ch_b (get_pixel ?ibuf j) \<noteq> 1"
  proof -
    from none have "?seed = - 1" by (rule seed_search_none)
    then have st: "seed_stack ?ibuf ?mp = []" by (simp add: seed_stack_def)
    then show ?thesis
      by (simp add: gpencil_boundaryfill_area_def Let_def boundaryfill_loop.simps)
  qed
  have found: "?seed < ?mp \<and> seed_stack ?ibuf ?mp = [?seed]" if "0 \<le> ?seed"
    using first that by auto
  have third: "gpencil_boundaryfill_area tgpf =
      map_option (\<lambda>ibuf'. tgpf\<lparr>ima := ibuf'\<rparr>) (boundaryfill_loop ?ibuf ?mp (fill_leak tgpf) [?seed])"
    if "0 \<le> ?seed"
    using found [OF that] by (simp add: gpencil_boundaryfill_area_def Let_def)
  have fourth: "\<exists>t. gpencil_boundaryfill_area tgpf = Some t
      \<and> (fillable (get_pixel ?ibuf ?seed) \<longrightarrow> get_pixel (ima t) ?seed = fill_col)
      \<and> (\<not> fillable (get_pixel ?ibuf ?seed) \<longrightarrow> t = tgpf)"
    if wf: "0 \<le> ?seed \<and> 0 \<le> ibuf_x ?ibuf \<and> int (length (rect_float ?ibuf)) = ibuf_x ?ibuf * ibuf_y ?ibuf"
  proof -
    from wf have s0: "0 \<le> ?seed" and x0: "0 \<le> ibuf_x ?ibuf"
      and mp: "?mp < int (length (rect_float ?ibuf))" by simp_all
    from found [OF s0] have le: "?seed \<le> ?mp" by simp
    from boundaryfill_loop_seed [OF x0 mp s0 le, of "fill_leak tgpf"] obtain ibuf' where
      r: "boundaryfill_loop ?ibuf ?mp (fill_leak tgpf) [?seed] = Some ibuf'"
        "fillable (get_pixel ?ibuf ?seed) \<longrightarrow> get_pixel ibuf' ?seed = fill_col"
        "\<not> fillable (get_pixel ?ibuf ?seed) \<longrightarrow> ibuf' = ?ibuf"
      by (elim exE conjE)
    from third [OF s0] r(1) have "gpencil_boundaryfill_area tgpf = Some (tgpf\<lparr>ima := ibuf'\<rparr>)"
      by simp
    moreover from r(2) have "fillable (get_pixel ?ibuf ?seed)
        \<longrightarrow> get_pixel (ima (tgpf\<lparr>ima := ibuf'\<rparr>)) ?seed = fill_col" by simp
    moreover from r(3) have "\<not> fillable (get_pixel ?ibuf ?seed) \<longrightarrow> tgpf\<lparr>ima := ibuf'\<rparr> = tgpf"
      by simp
    ultimately show ?thesis by blast
  qed
  show ?thesis
  proof (intro conjI impI)
    show "(?seed = - 1
      \<and> (\<forall>j. 0 \<le> j \<and> j < ?mp \<longrightarrow> ch_b (get_pixel ?ibuf j) \<noteq> 1))
    \<or> (0 \<le> ?seed \<and> ?seed < ?mp
       \<and> ch_b (get_pixel ?ibuf ?seed) = 1
       \<and> (\<forall>j. 0 \<le> j \<and> j < ?seed \<longrightarrow> ch_b (get_pixel ?ibuf j) \<noteq> 1)
       \<and> seed_stack ?ibuf ?mp = [?seed])" by (rule first)
  next
    assume "\<forall>j. 0 \<le> j \<and> j < ?mp \<longrightarrow> ch_b (get_pixel ?ibuf j) \<noteq> 1"
    then show "seed_stack ?ibuf ?mp = []" by (rule second [THEN conjunct1])
  next
    assume "\<forall>j. 0 \<le> j \<and> j < ?mp \<longrightarrow> ch_b (get_pixel ?ibuf j) \<noteq> 1"
    then show "gpencil_boundaryfill_area tgpf = Some tgpf" by (rule second [THEN conjunct2])
  next
    assume "0 \<le> ?seed"
    then show "gpencil_boundaryfill_area tgpf =
      map_option (\<lambda>ibuf'. tgpf\<lparr>ima := ibuf'\<rparr>) (boundaryfill_loop ?ibuf ?mp (fill_leak tgpf) [?seed])"
      by (rule third)
  next
    assume "0 \<le> ?seed \<and> 0 \<le> ibuf_x ?ibuf
      \<and> int (length (rect_float ?ibuf)) = ibuf_x ?ibuf * ibuf_y ?ibuf"
    then show "\<exists>t. gpencil_boundaryfill_area tgpf = Some t
      \<and> (fillable (get_pixel ?ibuf ?seed) \<longrightarrow> get_pixel (ima t) ?seed = fill_col)
      \<and> (\<not> fillable (get_pixel ?ibuf ?seed) \<longrightarrow> t = tgpf)" by (rule fourth)
  qed
qed

text \<open>A canvas without a blue pixel in the scanned range (the last pixel is not scanned),
  and a canvas with the seed at index 1.\<close>

definition canvas_no_seed :: tGPDfill where
  "canvas_no_seed =
     \<lparr>ima = \<lparr>ibuf_x = 2, ibuf_y = 2,
              rect_float = [RGBA 1 0 0 1, RGBA 0 0 0 0, RGBA 0 0 0 0, RGBA 0 0 1 1]\<rparr>,
      fill_leak = 3, sbuffer = [], sbuffer_used = 0\<rparr>"

definition canvas_seed :: tGPDfill where
  "canvas_seed =
     \<lparr>ima = \<lparr>ibuf_x = 2, ibuf_y = 2,
              rect_float = [RGBA 1 0 0 1, RGBA 0 0 1 1, RGBA 0 0 0 0, RGBA 0 0 0 0]\<rparr>,
      fill_leak = 0, sbuffer = [], sbuffer_used = 0\<rparr>"

lemma canvas_seed_fill:
  "gpencil_boundaryfill_area canvas_seed =
     Some (canvas_seed\<lparr>ima := \<lparr>ibuf_x = 2, ibuf_y = 2,
              rect_float = [RGBA 1 0 0 1, RGBA 0 1 0 1, RGBA 0 1 0 1, RGBA 0 1 0 1]\<rparr>\<rparr>)"
  by (simp add: canvas_seed_def fill_eval)

theorem boundaryfill_seed_scan_witness:
  "seed_search (ima canvas_no_seed) 3 0 = - 1
   \<and> seed_stack (ima canvas_no_seed) 3 = []
   \<and> gpencil_boundaryfill_area canvas_no_seed = Some canvas_no_seed
   \<and> seed_search (ima canvas_seed) 3 0 = 1
   \<and> fillable (get_pixel (ima canvas_seed) 1)
   \<and> (\<exists>t. gpencil_boundaryfill_area canvas_seed = Some t \<and> get_pixel (ima t) 1 = fill_col)
   \<and> gpencil_boundaryfill_area canvas_seed =
       Some (canvas_seed\<lparr>ima := \<lparr>ibuf_x = 2, ibuf_y = 2,
              rect_float = [RGBA 1 0 0 1, RGBA 0 1 0 1, RGBA 0 1 0 1, RGBA 0 1 0 1]\<rparr>\<rparr>)"
proof -
  have range: "j = 0 \<or> j = 1 \<or> j = 2" if "0 \<le> j \<and> j < 3" for j :: int
    using that by arith
  have none: "\<forall>j. 0 \<le> j \<and> j < ibuf_x (ima canvas_no_seed) * ibuf_y (ima canvas_no_seed) - 1
               \<longrightarrow> ch_b (get_pixel (ima canvas_no_seed) j) \<noteq> 1"
  proof (intro allI impI)
    fix j :: int
    assume "0 \<le> j \<and> j < ibuf_x (ima canvas_no_seed) * ibuf_y (ima canvas_no_seed) - 1"
    then have "0 \<le> j \<and> j < 3" by (simp add: canvas_no_seed_def)
    then have "j = 0 \<or> j = 1 \<or> j = 2" by (rule range)
    then show "ch_b (get_pixel (ima canvas_no_seed) j) \<noteq> 1"
      by (auto simp: canvas_no_seed_def get_pixel_def)
  qed
  have mp1: "ibuf_x (ima canvas_no_seed) * ibuf_y (ima canvas_no_seed) - 1 = 3"
    by (simp add: canvas_no_seed_def)
  note no_seed = boundaryfill_seed_scan [of canvas_no_seed, THEN conjunct2, THEN conjunct1,
      THEN mp, OF none]
  then have a: "seed_stack (ima canvas_no_seed) 3 = []
        \<and> gpencil_boundaryfill_area canvas_no_seed = Some canvas_no_seed"
    unfolding mp1 .
  from none have b: "seed_search (ima canvas_no_seed) 3 0 = - 1"
    unfolding mp1 by (rule seed_search_none)
  have mp2: "ibuf_x (ima canvas_seed) * ibuf_y (ima canvas_seed) - 1 = 3"
    by (simp add: canvas_seed_def)
  have seed: "seed_search (ima canvas_seed) 3 0 = 1"
    by (simp add: canvas_seed_def seed_search_step get_pixel_def)
  have fl: "fillable (get_pixel (ima canvas_seed) 1)"
    by (simp add: canvas_seed_def get_pixel_def fillable_def)
  have wf: "0 \<le> seed_search (ima canvas_seed) (ibuf_x (ima canvas_seed) * ibuf_y (ima canvas_seed) - 1) 0
      \<and> 0 \<le> ibuf_x (ima canvas_seed)
      \<and> int (length (rect_float (ima canvas_seed)))
          = ibuf_x (ima canvas_seed) * ibuf_y (ima canvas_seed)"
    unfolding mp2 seed by (simp add: canvas_seed_def)
  note with_seed = boundaryfill_seed_scan [of canvas_seed, THEN conjunct2, THEN conjunct2,
      THEN conjunct2, THEN mp, OF wf]
  then have c: "\<exists>t. gpencil_boundaryfill_area canvas_seed = Some t \<and> get_pixel (ima t) 1 = fill_col"
    unfolding mp2 seed using fl by blast
  from a b c seed fl show ?thesis by (simp add: canvas_seed_fill)
qed


section \<open>Falloff fields of the sculpt expand operator (sculpt\_expand.c)\<close>

text \<open>
  A \<^verbatim>\<open>float\<close> of the falloff arrays is modelled as a real number and \<^verbatim>\<open>FLT_MAX\<close> as the
  real number it denotes; hop counts are small integers, on which float addition of
  \<^verbatim>\<open>1.0f\<close> is exact. The mesh is reached through the sculpt session: vertex count,
  positions, normals, the neighbour iterator (each entry with its \<^verbatim>\<open>is_duplicate\<close> flag),
  the symmetry flags, and the services \<^verbatim>\<open>SCULPT_is_symmetry_iteration_valid\<close>,
  \<^verbatim>\<open>flip_v3_v3\<close>, \<^verbatim>\<open>SCULPT_nearest_vertex_get\<close> (\<open>-1\<close> when there is none) and
  \<^verbatim>\<open>SCULPT_boundary_data_init\<close> (the vertices of the boundary, or a null pointer), which
  are not part of this file and are taken as fields of the session.
\<close>

type_synonym vec3 = "real \<times> real \<times> real"

definition FLT_MAX :: real where
  "FLT_MAX = 340282346638528859811704183484516925440"

definition SCULPT_EXPAND_VERTEX_NONE :: int where
  "SCULPT_EXPAND_VERTEX_NONE = - 1"

record SculptSession =
  totvert :: nat
  totfaces :: nat
  vert_co :: "nat \<Rightarrow> vec3"
  vert_no :: "nat \<Rightarrow> vec3"
  vert_neighbors :: "nat \<Rightarrow> (nat \<times> bool) list"
  mesh_symmetry :: nat
  symmetry_iteration_valid :: "nat \<Rightarrow> nat \<Rightarrow> bool"
  flip_v3 :: "vec3 \<Rightarrow> nat \<Rightarrow> vec3"
  nearest_vertex :: "vec3 \<Rightarrow> int"
  boundary_data_init :: "int \<Rightarrow> nat list option"

definition dot_v3v3 :: "vec3 \<Rightarrow> vec3 \<Rightarrow> real" where
  "dot_v3v3 a b =
     (case a of (a0, a1, a2) \<Rightarrow> case b of (b0, b1, b2) \<Rightarrow> a0 * b0 + a1 * b1 + a2 * b2)"

definition sub_v3_v3v3 :: "vec3 \<Rightarrow> vec3 \<Rightarrow> vec3" where
  "sub_v3_v3v3 a b =
     (case a of (a0, a1, a2) \<Rightarrow> case b of (b0, b1, b2) \<Rightarrow> (a0 - b0, a1 - b1, a2 - b2))"

definition len_v3v3 :: "vec3 \<Rightarrow> vec3 \<Rightarrow> real" where
  "len_v3v3 a b = sqrt (dot_v3v3 (sub_v3_v3v3 b a) (sub_v3_v3v3 b a))"

definition min_ff :: "real \<Rightarrow> real \<Rightarrow> real" where
  "min_ff a b = (if a < b then a else b)"

definition symm_origin :: "SculptSession \<Rightarrow> int \<Rightarrow> nat \<Rightarrow> int" where
  "symm_origin ss vertex symm_it =
     (if symm_it = 0 then vertex
      else nearest_vertex ss (flip_v3 ss (vert_co ss (nat vertex)) symm_it))"

definition spherical_update :: "SculptSession \<Rightarrow> int \<Rightarrow> real list \<Rightarrow> real list" where
  "spherical_update ss v dists =
     map (\<lambda>i. min_ff (dists ! i) (len_v3v3 (vert_co ss (nat v)) (vert_co ss i)))
       [0 ..< totvert ss]"

function spherical_loop :: "SculptSession \<Rightarrow> int \<Rightarrow> nat \<Rightarrow> nat \<Rightarrow> real list \<Rightarrow> real list" where
  "spherical_loop ss vertex symm symm_it dists =
     (if symm_it \<le> symm then
        (if \<not> symmetry_iteration_valid ss symm_it symm
         then spherical_loop ss vertex symm (symm_it + 1) dists
         else
           (let v = symm_origin ss vertex symm_it;
                dists' = (if v \<noteq> - 1 then spherical_update ss v dists else dists)
            in spherical_loop ss vertex symm (symm_it + 1) dists'))
      else dists)"
  by pat_completeness auto
termination
  by (relation "measure (\<lambda>(ss, vertex, symm, symm_it, dists). symm + 1 - symm_it)") auto

declare spherical_loop.simps [simp del]

definition sculpt_expand_spherical_falloff_create :: "SculptSession \<Rightarrow> int \<Rightarrow> real list" where
  "sculpt_expand_spherical_falloff_create ss vertex =
     spherical_loop ss vertex (mesh_symmetry ss) 0 (replicate (totvert ss) FLT_MAX)"

definition origin_dists :: "SculptSession \<Rightarrow> int \<Rightarrow> nat \<Rightarrow> nat \<Rightarrow> real set" where
  "origin_dists ss vertex from i =
     (\<lambda>k. len_v3v3 (vert_co ss (nat (symm_origin ss vertex k))) (vert_co ss i)) `
       {k. from \<le> k \<and> k \<le> mesh_symmetry ss \<and> symmetry_iteration_valid ss k (mesh_symmetry ss)
           \<and> symm_origin ss vertex k \<noteq> - 1}"

lemma origin_dists_finite: "finite (origin_dists ss vertex from i)"
  unfolding origin_dists_def by (rule finite_imageI) simp

lemma spherical_update_nth:
  "i < totvert ss \<Longrightarrow>
   spherical_update ss v dists ! i = min (dists ! i) (len_v3v3 (vert_co ss (nat v)) (vert_co ss i))"
  by (simp add: spherical_update_def min_ff_def min_def)

lemma spherical_loop_min:
  "symm = mesh_symmetry ss \<Longrightarrow> i < totvert ss \<Longrightarrow>
   spherical_loop ss vertex symm symm_it dists ! i
     = Min (insert (dists ! i) (origin_dists ss vertex symm_it i))"
proof (induction ss vertex symm symm_it dists rule: spherical_loop.induct)
  case (1 ss vertex symm symm_it dists)
  let ?D = "\<lambda>k. len_v3v3 (vert_co ss (nat (symm_origin ss vertex k))) (vert_co ss i)"
  let ?ok = "\<lambda>k. symmetry_iteration_valid ss k (mesh_symmetry ss) \<and> symm_origin ss vertex k \<noteq> - 1"
  show ?case
  proof (cases "symm_it \<le> symm")
    case False
    with 1 have "origin_dists ss vertex symm_it i = {}" by (auto simp: origin_dists_def)
    with False show ?thesis by (subst spherical_loop.simps) simp
  next
    case True
    have split: "{k. symm_it \<le> k \<and> k \<le> mesh_symmetry ss \<and> ?ok k}
        = (if ?ok symm_it then {symm_it} else {}) \<union> {k. symm_it + 1 \<le> k \<and> k \<le> mesh_symmetry ss \<and> ?ok k}"
      using True "1.prems"(1) by (auto simp: le_Suc_eq Suc_le_eq le_less)
    then have od: "origin_dists ss vertex symm_it i
        = (if ?ok symm_it then {?D symm_it} else {}) \<union> origin_dists ss vertex (symm_it + 1) i"
      unfolding origin_dists_def by (simp add: image_Un split: if_splits)
    show ?thesis
    proof (cases "?ok symm_it")
      case False
      then have "spherical_loop ss vertex symm symm_it dists
          = spherical_loop ss vertex symm (symm_it + 1) dists"
        using True "1.prems"(1) by (subst spherical_loop.simps) (auto simp: Let_def)
      moreover have "spherical_loop ss vertex symm (symm_it + 1) dists ! i
          = Min (insert (dists ! i) (origin_dists ss vertex (symm_it + 1) i))"
      proof (cases "symmetry_iteration_valid ss symm_it symm")
        case False
        with True "1.prems" show ?thesis by (intro "1.IH"(1)) simp_all
      next
        case v: True
        with False "1.prems" have "symm_origin ss vertex symm_it = - 1" by simp
        with True v "1.prems" "1.IH"(2) [OF True _ refl refl] show ?thesis by simp
      qed
      ultimately show ?thesis using od False by simp
    next
      case ok: True
      let ?d' = "spherical_update ss (symm_origin ss vertex symm_it) dists"
      from ok True "1.prems"(1) have "spherical_loop ss vertex symm symm_it dists
          = spherical_loop ss vertex symm (symm_it + 1) ?d'"
        by (subst spherical_loop.simps) (simp add: Let_def)
      moreover have "spherical_loop ss vertex symm (symm_it + 1) ?d' ! i
          = Min (insert (?d' ! i) (origin_dists ss vertex (symm_it + 1) i))"
        using ok True "1.prems" "1.IH"(2) [OF True _ refl refl] by simp
      moreover have "?d' ! i = min (dists ! i) (?D symm_it)"
        using "1.prems" by (simp add: spherical_update_nth)
      moreover have "Min (insert (min (dists ! i) (?D symm_it)) (origin_dists ss vertex (symm_it + 1) i))
          = Min (insert (dists ! i) (insert (?D symm_it) (origin_dists ss vertex (symm_it + 1) i)))"
        using origin_dists_finite [of ss vertex "symm_it + 1" i]
        by (cases "origin_dists ss vertex (symm_it + 1) i = {}") (simp_all add: min.assoc)
      ultimately show ?thesis using od ok by simp
    qed
  qed
qed


subsection \<open>Spherical falloff\<close>

text \<open>
  Claim C7. The spherical falloff of vertex \<open>i\<close> is the minimum of \<^verbatim>\<open>FLT_MAX\<close> (the
  initial value) and of the Euclidean distances from \<open>i\<close> to the origins: the origin of
  iteration 0 is the given vertex, the origin of a later iteration is the vertex nearest to
  the flipped position, and an iteration that is not valid, or whose origin is \<open>-1\<close>,
  contributes nothing. When iteration 0 is valid and the distances are representable
  (at most \<^verbatim>\<open>FLT_MAX\<close>), this is the minimum of the distances to the origins.
\<close>

theorem spherical_falloff_min:
  "i < totvert ss \<longrightarrow>
     sculpt_expand_spherical_falloff_create ss vertex ! i
       = Min (insert FLT_MAX (origin_dists ss vertex 0 i))
     \<and> (symmetry_iteration_valid ss 0 (mesh_symmetry ss) \<and> vertex \<noteq> - 1
          \<and> (\<forall>d \<in> origin_dists ss vertex 0 i. d \<le> FLT_MAX)
        \<longrightarrow> sculpt_expand_spherical_falloff_create ss vertex ! i
              = Min (origin_dists ss vertex 0 i))"
proof (intro impI conjI)
  assume i: "i < totvert ss"
  then show first: "sculpt_expand_spherical_falloff_create ss vertex ! i
       = Min (insert FLT_MAX (origin_dists ss vertex 0 i))"
    by (simp add: sculpt_expand_spherical_falloff_create_def spherical_loop_min)
  assume h: "symmetry_iteration_valid ss 0 (mesh_symmetry ss) \<and> vertex \<noteq> - 1
          \<and> (\<forall>d \<in> origin_dists ss vertex 0 i. d \<le> FLT_MAX)"
  then have "len_v3v3 (vert_co ss (nat (symm_origin ss vertex 0))) (vert_co ss i)
      \<in> origin_dists ss vertex 0 i"
    unfolding origin_dists_def by (intro imageI) (simp add: symm_origin_def)
  then have ne: "origin_dists ss vertex 0 i \<noteq> {}" by blast
  from h have "Min (origin_dists ss vertex 0 i) \<le> FLT_MAX"
    using ne origin_dists_finite [of ss vertex 0 i] by (simp add: Min_le_iff)
  moreover have "Min (insert FLT_MAX (origin_dists ss vertex 0 i))
      = min FLT_MAX (Min (origin_dists ss vertex 0 i))"
    using origin_dists_finite [of ss vertex 0 i] ne by (rule Min_insert)
  ultimately
  have "Min (insert FLT_MAX (origin_dists ss vertex 0 i)) = Min (origin_dists ss vertex 0 i)"
    by (simp only: min_def) simp
  with first show "sculpt_expand_spherical_falloff_create ss vertex ! i
              = Min (origin_dists ss vertex 0 i)" by simp
qed

definition mirror_mesh :: SculptSession where
  "mirror_mesh =
     \<lparr>totvert = 2, totfaces = 0,
      vert_co = (\<lambda>v. if v = 0 then (1, 0, 0) else (- 1, 0, 0)),
      vert_no = (\<lambda>v. (0, 0, 1)),
      vert_neighbors = (\<lambda>v. if v = 0 then [(1, False)] else [(0, False)]),
      mesh_symmetry = 1,
      symmetry_iteration_valid = (\<lambda>i symm. True),
      flip_v3 = (\<lambda>co symm. case co of (x, y, z) \<Rightarrow> if symm = 1 then (- x, y, z) else (x, y, z)),
      nearest_vertex = (\<lambda>co. if co = (1, 0, 0) then 0 else if co = (- 1, 0, 0) then 1 else - 1),
      boundary_data_init = (\<lambda>v. Some [])\<rparr>"

theorem spherical_falloff_min_witness:
  "sculpt_expand_spherical_falloff_create mirror_mesh 0 ! 1 = 0
   \<and> sculpt_expand_spherical_falloff_create mirror_mesh 0 ! 0 = 0
   \<and> origin_dists mirror_mesh 0 0 1 = {0, 2}"
proof -
  have ks: "{k. 0 \<le> k \<and> k \<le> mesh_symmetry mirror_mesh
               \<and> symmetry_iteration_valid mirror_mesh k (mesh_symmetry mirror_mesh)
               \<and> symm_origin mirror_mesh 0 k \<noteq> - 1} = {0, 1}"
    by (auto simp: mirror_mesh_def symm_origin_def)
  have od: "origin_dists mirror_mesh 0 0 i = {len_v3v3 (1, 0, 0) (vert_co mirror_mesh i),
                                              len_v3v3 (- 1, 0, 0) (vert_co mirror_mesh i)}" for i
    unfolding origin_dists_def ks by (simp add: mirror_mesh_def symm_origin_def)
  have od1: "origin_dists mirror_mesh 0 0 1 = {0, 2}"
    unfolding od by (auto simp: mirror_mesh_def len_v3v3_def dot_v3v3_def sub_v3_v3v3_def)
  have od0: "origin_dists mirror_mesh 0 0 0 = {0, 2}"
    unfolding od by (auto simp: mirror_mesh_def len_v3v3_def dot_v3v3_def sub_v3_v3v3_def)
  have hyp: "symmetry_iteration_valid mirror_mesh 0 (mesh_symmetry mirror_mesh) \<and> (0::int) \<noteq> - 1
          \<and> (\<forall>d \<in> origin_dists mirror_mesh 0 0 i. d \<le> FLT_MAX)" if "i = 0 \<or> i = 1" for i
    using that od0 od1 by (auto simp: mirror_mesh_def FLT_MAX_def)
  have "sculpt_expand_spherical_falloff_create mirror_mesh 0 ! 1
      = Min (origin_dists mirror_mesh 0 0 1)"
    using spherical_falloff_min [of 1 mirror_mesh 0] hyp [of 1] by (simp add: mirror_mesh_def)
  moreover have "sculpt_expand_spherical_falloff_create mirror_mesh 0 ! 0
      = Min (origin_dists mirror_mesh 0 0 0)"
    using spherical_falloff_min [of 0 mirror_mesh 0] hyp [of 0] by (simp add: mirror_mesh_def)
  ultimately show ?thesis using od0 od1 by simp
qed

subsection \<open>Boundary topology falloff\<close>

text \<open>\<^verbatim>\<open>SCULPT_VERTEX_NEIGHBORS_ITER\<close>: the neighbours of a vertex, duplicates left out.\<close>

definition vertex_neighbors :: "SculptSession \<Rightarrow> nat \<Rightarrow> nat list" where
  "vertex_neighbors ss v = map fst (filter (\<lambda>ni. \<not> snd ni) (vert_neighbors ss v))"

text \<open>
  The sum \<^verbatim>\<open>dists[v] + 1.0f\<close> of two binary32 floats, for a whole number \<open>x \<ge> 0\<close> that is a
  float; the traversals below start from 0 and apply it to such numbers only. Below
  \<open>2^24 = 16777216\<close> the sum is a float and is exact. From \<open>2^24\<close> to \<open>2^25\<close> the floats are
  the even numbers, \<open>x + 1\<close> lies halfway between two of them and is rounded to the one with
  the even significand (round to nearest, ties to even); from \<open>2^25\<close> on the nearest float
  is \<open>x\<close> itself. So \<open>16777216 + 1\<close> gives 16777216 again, and a count that reaches \<open>2^24\<close>
  stays there. \<open>float_hops k\<close> is the float that \<open>k\<close> such additions to zero give.
\<close>

definition add_one_f :: "real \<Rightarrow> real" where
  "add_one_f x =
     (if x < 16777216 then x + 1
      else if x < 33554432 \<and> odd \<lfloor>x / 2\<rfloor> then x + 2
      else x)"

definition float_hops :: "nat \<Rightarrow> real" where
  "float_hops k = real (min k 16777216)"

lemma float_hops_0: "float_hops 0 = 0"
  by (simp add: float_hops_def)

lemma add_one_f_float_hops: "add_one_f (float_hops k) = float_hops (Suc k)"
proof (cases "k < 16777216")
  case True
  then show ?thesis by (simp add: add_one_f_def float_hops_def)
next
  case False
  then have "float_hops k = 16777216" "float_hops (Suc k) = 16777216"
    by (simp_all add: float_hops_def)
  then show ?thesis by (simp add: add_one_f_def)
qed

lemma float_hops_mono: "j \<le> k \<Longrightarrow> float_hops j \<le> float_hops k"
  by (simp add: float_hops_def min_def)

lemma float_hops_exact: "k \<le> 16777216 \<Longrightarrow> float_hops k = real k"
  by (simp add: float_hops_def)

lemma float_hops_add_one_f:
  assumes "float_hops k \<le> y"
  shows "float_hops (Suc k) \<le> add_one_f y"
proof (cases "k < 16777216")
  case True
  with assms have "real k \<le> y" "float_hops (Suc k) = real k + 1" "real k + 1 \<le> 16777216"
    by (simp_all add: float_hops_def)
  then show ?thesis by (simp add: add_one_f_def)
next
  case False
  with assms have "16777216 \<le> y" "float_hops (Suc k) = 16777216"
    by (simp_all add: float_hops_def)
  then show ?thesis by (simp add: add_one_f_def)
qed

lemma add_one_f_eval: "x < 16777216 \<Longrightarrow> add_one_f x = x + 1"
  by (simp add: add_one_f_def)

lemma add_one_f_ge: "x \<le> add_one_f x"
  by (simp add: add_one_f_def)

text \<open>The body of the neighbour loop of the breadth-first search, for the neighbours
  \<open>ns\<close> still to come. Indexing outside the arrays is undefined behaviour in C and
  \<open>None\<close> here.\<close>

fun bfs_visit :: "nat \<Rightarrow> nat list \<Rightarrow> real list \<times> bool list \<times> nat list
                   \<Rightarrow> (real list \<times> bool list \<times> nat list) option" where
  "bfs_visit v [] st = Some st"
| "bfs_visit v (ni # ns) (dists, visited, queue) =
     (if length visited \<le> ni \<or> length dists \<le> ni \<or> length dists \<le> v then None
      else if visited ! ni then bfs_visit v ns (dists, visited, queue)
      else bfs_visit v ns (dists[ni := add_one_f (dists ! v)], visited[ni := True], queue @ [ni]))"

definition unvisited :: "bool list \<Rightarrow> nat" where
  "unvisited visited = length (filter Not visited)"

lemma unvisited_update:
  "i < length vs \<Longrightarrow> \<not> vs ! i \<Longrightarrow> Suc (unvisited (vs[i := True])) = unvisited vs"
  unfolding unvisited_def
proof (induction vs arbitrary: i)
  case Nil
  then show ?case by simp
next
  case (Cons a vs)
  then show ?case by (cases i) auto
qed

lemma bfs_visit_measure:
  "bfs_visit v ns (dists, visited, queue) = Some (dists', visited', queue') \<Longrightarrow>
   2 * unvisited visited' + length queue' \<le> 2 * unvisited visited + length queue
   \<and> length visited' = length visited \<and> length dists' = length dists"
proof (induction ns arbitrary: dists visited queue)
  case Nil
  then show ?case by simp
next
  case (Cons ni ns)
  show ?case
  proof (cases "visited ! ni")
    case True
    with Cons.prems have "bfs_visit v ns (dists, visited, queue) = Some (dists', visited', queue')"
      by (simp split: if_splits)
    then show ?thesis by (rule Cons.IH)
  next
    case False
    with Cons.prems have ni: "ni < length visited"
      and r: "bfs_visit v ns (dists[ni := add_one_f (dists ! v)], visited[ni := True], queue @ [ni])
              = Some (dists', visited', queue')"
      by (simp_all split: if_splits)
    from Cons.IH [OF r] unvisited_update [OF ni False] show ?thesis by simp
  qed
qed

function boundary_bfs :: "SculptSession \<Rightarrow> real list \<Rightarrow> bool list \<Rightarrow> nat list
                          \<Rightarrow> (real list \<times> bool list) option" where
  "boundary_bfs ss dists visited [] = Some (dists, visited)"
| "boundary_bfs ss dists visited (v # queue) =
     (case bfs_visit v (vertex_neighbors ss v) (dists, visited, queue) of
        None \<Rightarrow> None
      | Some (dists', visited', queue') \<Rightarrow> boundary_bfs ss dists' visited' queue')"
  by pat_completeness auto
termination
proof (relation "measure (\<lambda>(ss, dists, visited, queue). 2 * unvisited visited + length queue)",
    goal_cases)
  case 1
  show ?case by simp
next
  case (2 ss dists visited v queue st dists' rest visited' queue')
  then have "bfs_visit v (vertex_neighbors ss v) (dists, visited, queue)
      = Some (dists', visited', queue')" by simp
  from bfs_visit_measure [OF this] show ?case by simp
qed

declare boundary_bfs.simps [simp del]


inductive hops :: "SculptSession \<Rightarrow> nat set \<Rightarrow> nat \<Rightarrow> nat \<Rightarrow> bool" for ss S where
  hops_seed: "s \<in> S \<Longrightarrow> hops ss S 0 s"
| hops_step: "hops ss S k w \<Longrightarrow> u \<in> set (vertex_neighbors ss w) \<Longrightarrow> hops ss S (Suc k) u"

definition reachable :: "SculptSession \<Rightarrow> nat set \<Rightarrow> nat \<Rightarrow> bool" where
  "reachable ss S u = (\<exists>k. hops ss S k u)"

definition hop_count :: "SculptSession \<Rightarrow> nat set \<Rightarrow> nat \<Rightarrow> nat" where
  "hop_count ss S u = (LEAST k. hops ss S k u)"

definition wf_neighbors :: "SculptSession \<Rightarrow> bool" where
  "wf_neighbors ss = (\<forall>v < totvert ss. \<forall>u \<in> set (vertex_neighbors ss v). u < totvert ss)"

lemma hop_count_hops: "reachable ss S u \<Longrightarrow> hops ss S (hop_count ss S u) u"
  unfolding reachable_def hop_count_def by (rule LeastI_ex)

lemma hop_count_le: "hops ss S k u \<Longrightarrow> hop_count ss S u \<le> k"
  unfolding hop_count_def by (rule Least_le)

lemma hop_count_seed: "s \<in> S \<Longrightarrow> reachable ss S s \<and> hop_count ss S s = 0"
  using hop_count_le [of ss S 0 s] hops_seed [of s S ss] by (auto simp: reachable_def)

lemma hop_count_edge:
  assumes "reachable ss S w" "u \<in> set (vertex_neighbors ss w)"
  shows "reachable ss S u \<and> hop_count ss S u \<le> hop_count ss S w + 1"
proof -
  from assms have "hops ss S (Suc (hop_count ss S w)) u"
    by (intro hops_step [of ss S _ w] hop_count_hops)
  then show ?thesis using hop_count_le [of ss S _ u] by (auto simp: reachable_def)
qed

lemma hop_count_pred:
  assumes "reachable ss S u" "u \<notin> S"
  shows "\<exists>w. reachable ss S w \<and> u \<in> set (vertex_neighbors ss w)
             \<and> hop_count ss S w < hop_count ss S u"
proof -
  from assms(1) have "hops ss S (hop_count ss S u) u" by (rule hop_count_hops)
  then show ?thesis
  proof (cases rule: hops.cases)
    case hops_seed
    with assms(2) show ?thesis by simp
  next
    case (hops_step k w)
    then have "reachable ss S w" "hop_count ss S w \<le> k"
      by (auto simp: reachable_def intro: hop_count_le)
    with hops_step show ?thesis by auto
  qed
qed

definition bfs_inner_inv ::
  "SculptSession \<Rightarrow> nat set \<Rightarrow> nat \<Rightarrow> real list \<times> bool list \<times> nat list \<Rightarrow> bool" where
  "bfs_inner_inv ss S v st =
     (case st of (dists, visited, q) \<Rightarrow>
        length dists = totvert ss \<and> length visited = totvert ss
        \<and> (\<forall>u < totvert ss. visited ! u \<longrightarrow>
               reachable ss S u \<and> dists ! u = float_hops (hop_count ss S u))
        \<and> sorted_wrt (\<lambda>a b. hop_count ss S a \<le> hop_count ss S b) q
        \<and> (\<forall>a \<in> set q. a < totvert ss \<and> visited ! a
               \<and> hop_count ss S v \<le> hop_count ss S a
               \<and> hop_count ss S a \<le> hop_count ss S v + 1)
        \<and> v < totvert ss \<and> visited ! v
        \<and> (\<forall>w < totvert ss. reachable ss S w \<and> hop_count ss S w \<le> hop_count ss S v
               \<longrightarrow> visited ! w)
        \<and> (\<forall>w < totvert ss. visited ! w \<and> w \<notin> set q \<and> w \<noteq> v
               \<longrightarrow> (\<forall>u \<in> set (vertex_neighbors ss w). visited ! u)))"

lemma bfs_inner_invD:
  assumes "bfs_inner_inv ss S v (dists, visited, q)"
  shows "length dists = totvert ss" "length visited = totvert ss"
    and "\<And>u. u < totvert ss \<Longrightarrow> visited ! u \<Longrightarrow> reachable ss S u"
    and "\<And>u. u < totvert ss \<Longrightarrow> visited ! u \<Longrightarrow> dists ! u = float_hops (hop_count ss S u)"
    and "sorted_wrt (\<lambda>a b. hop_count ss S a \<le> hop_count ss S b) q"
    and "\<And>a. a \<in> set q \<Longrightarrow> a < totvert ss"
    and "\<And>a. a \<in> set q \<Longrightarrow> visited ! a"
    and "\<And>a. a \<in> set q \<Longrightarrow> hop_count ss S v \<le> hop_count ss S a"
    and "\<And>a. a \<in> set q \<Longrightarrow> hop_count ss S a \<le> hop_count ss S v + 1"
    and "v < totvert ss" "visited ! v"
    and "\<And>w. w < totvert ss \<Longrightarrow> reachable ss S w \<Longrightarrow> hop_count ss S w \<le> hop_count ss S v
           \<Longrightarrow> visited ! w"
    and "\<And>w u. w < totvert ss \<Longrightarrow> visited ! w \<Longrightarrow> w \<notin> set q \<Longrightarrow> w \<noteq> v
           \<Longrightarrow> u \<in> set (vertex_neighbors ss w) \<Longrightarrow> visited ! u"
  using assms unfolding bfs_inner_inv_def prod.case by blast+

lemma bfs_visit_inv:
  "wf_neighbors ss \<Longrightarrow> set ns \<subseteq> set (vertex_neighbors ss v) \<Longrightarrow> bfs_inner_inv ss S v st \<Longrightarrow>
   \<exists>st'. bfs_visit v ns st = Some st' \<and> bfs_inner_inv ss S v st'
     \<and> (\<forall>u \<in> set ns. fst (snd st') ! u)
     \<and> (\<forall>u < totvert ss. fst (snd st) ! u \<longrightarrow> fst (snd st') ! u)"
proof (induction ns arbitrary: st)
  case Nil
  then show ?case by simp
next
  case (Cons ni ns)
  obtain dists visited q where st: "st = (dists, visited, q)" by (cases st) auto
  let ?n = "totvert ss"
  let ?hc = "hop_count ss S"
  note inv = bfs_inner_invD [OF Cons.prems(3) [unfolded st]]
  note len = inv(1,2) and v = inv(10,11)
  from Cons.prems(2) have ni_nb: "ni \<in> set (vertex_neighbors ss v)"
    and ns: "set ns \<subseteq> set (vertex_neighbors ss v)" by simp_all
  with Cons.prems(1) v have ni: "ni < ?n" unfolding wf_neighbors_def by blast
  from v have rv: "reachable ss S v" "dists ! v = float_hops (?hc v)" by (rule inv(3), rule inv(4))
  show ?case
  proof (cases "visited ! ni")
    case True
    with ni len v have "bfs_visit v (ni # ns) st = bfs_visit v ns st" by (simp add: st)
    moreover from Cons.IH [OF Cons.prems(1) ns Cons.prems(3)]
    obtain st' where r: "bfs_visit v ns st = Some st'" "bfs_inner_inv ss S v st'"
      "\<forall>u \<in> set ns. fst (snd st') ! u" "\<forall>u < ?n. fst (snd st) ! u \<longrightarrow> fst (snd st') ! u"
      by blast
    moreover from r(4) True ni have "fst (snd st') ! ni" by (simp add: st)
    ultimately show ?thesis by simp
  next
    case False
    let ?d1 = "dists[ni := add_one_f (dists ! v)]"
    let ?v1 = "visited[ni := True]"
    let ?st1 = "(?d1, ?v1, q @ [ni])"
    from False ni len v have step: "bfs_visit v (ni # ns) st = bfs_visit v ns ?st1"
      by (simp add: st)
    from hop_count_edge [OF rv(1) ni_nb] have rni: "reachable ss S ni" "?hc ni \<le> ?hc v + 1"
      by simp_all
    have "\<not> ?hc ni \<le> ?hc v"
    proof
      assume "?hc ni \<le> ?hc v"
      with ni rni(1) have "visited ! ni" by (rule inv(12))
      with False show False by simp
    qed
    with rni have hni: "?hc ni = ?hc v + 1" by simp
    have v1: "?v1 ! u = (u = ni \<or> visited ! u)" if "u < ?n" for u
      using that ni len by (auto simp: nth_list_update)
    have d1: "?d1 ! u = (if u = ni then add_one_f (dists ! v) else dists ! u)" if "u < ?n" for u
      using that ni len by (auto simp: nth_list_update)
    have inv1: "bfs_inner_inv ss S v ?st1"
      unfolding bfs_inner_inv_def prod.case
    proof (intro conjI)
      show "length ?d1 = ?n" "length ?v1 = ?n" using len by simp_all
      show "\<forall>u < ?n. ?v1 ! u \<longrightarrow> reachable ss S u \<and> ?d1 ! u = float_hops (?hc u)"
      proof (intro allI impI)
        fix u assume u: "u < ?n" "?v1 ! u"
        show "reachable ss S u \<and> ?d1 ! u = float_hops (?hc u)"
        proof (cases "u = ni")
          case True
          with rni(1) hni rv(2) d1 [OF u(1)] show ?thesis by (simp add: add_one_f_float_hops)
        next
          case False
          with u v1 [OF u(1)] have "visited ! u" by simp
          with u(1) inv(3) [of u] inv(4) [of u] d1 [OF u(1)] False show ?thesis by simp
        qed
      qed
      show "sorted_wrt (\<lambda>a b. ?hc a \<le> ?hc b) (q @ [ni])"
        using inv(5) inv(9) hni by (simp add: sorted_wrt_append)
      show "\<forall>a \<in> set (q @ [ni]). a < ?n \<and> ?v1 ! a \<and> ?hc v \<le> ?hc a \<and> ?hc a \<le> ?hc v + 1"
      proof
        fix a assume "a \<in> set (q @ [ni])"
        then consider "a = ni" | "a \<in> set q" by auto
        then show "a < ?n \<and> ?v1 ! a \<and> ?hc v \<le> ?hc a \<and> ?hc a \<le> ?hc v + 1"
        proof cases
          case 1
          with ni hni v1 [OF ni] show ?thesis by simp
        next
          case 2
          from inv(6) [OF 2] inv(7) [OF 2] inv(8) [OF 2] inv(9) [OF 2] v1 [of a]
          show ?thesis by simp
        qed
      qed
      show "v < ?n" by (rule v)
      show "?v1 ! v" using v v1 [of v] by simp
      show "\<forall>w < ?n. reachable ss S w \<and> ?hc w \<le> ?hc v \<longrightarrow> ?v1 ! w"
      proof (intro allI impI)
        fix w assume w: "w < ?n" "reachable ss S w \<and> ?hc w \<le> ?hc v"
        then have "visited ! w" using inv(12) [of w] by simp
        with v1 [OF w(1)] show "?v1 ! w" by simp
      qed
      show "\<forall>w < ?n. ?v1 ! w \<and> w \<notin> set (q @ [ni]) \<and> w \<noteq> v
               \<longrightarrow> (\<forall>u \<in> set (vertex_neighbors ss w). ?v1 ! u)"
      proof (intro allI impI ballI)
        fix w u assume w: "w < ?n" "?v1 ! w \<and> w \<notin> set (q @ [ni]) \<and> w \<noteq> v"
          and u: "u \<in> set (vertex_neighbors ss w)"
        from w v1 [OF w(1)] have w': "visited ! w" "w \<notin> set q" "w \<noteq> v" by auto
        from w(1) w' u have "visited ! u" by (rule inv(13))
        moreover from Cons.prems(1) w(1) u have "u < ?n" unfolding wf_neighbors_def by blast
        ultimately show "?v1 ! u" using v1 [of u] by simp
      qed
    qed
    from Cons.IH [OF Cons.prems(1) ns inv1]
    obtain st' where r: "bfs_visit v ns ?st1 = Some st'" "bfs_inner_inv ss S v st'"
      "\<forall>u \<in> set ns. fst (snd st') ! u"
      "\<forall>u < ?n. fst (snd ?st1) ! u \<longrightarrow> fst (snd st') ! u"
      by blast
    from r(4) ni v1 [OF ni] have "fst (snd st') ! ni" by simp
    moreover have "\<forall>u < ?n. fst (snd st) ! u \<longrightarrow> fst (snd st') ! u"
    proof (intro allI impI)
      fix u assume u: "u < ?n" "fst (snd st) ! u"
      with v1 [OF u(1)] have "fst (snd ?st1) ! u" by (simp add: st)
      with r(4) u(1) show "fst (snd st') ! u" by blast
    qed
    ultimately show ?thesis using step r(1,2,3) by simp
  qed
qed

text \<open>
  The specification of the search: \<open>hops ss S k u\<close> holds when \<open>u\<close> is reached from a
  vertex of \<open>S\<close> by \<open>k\<close> neighbour steps, and the hop count of a reachable vertex is the
  least such \<open>k\<close>.
\<close>

text \<open>The invariant of the outer loop.\<close>

definition bfs_inv ::
  "SculptSession \<Rightarrow> nat set \<Rightarrow> real list \<times> bool list \<times> nat list \<Rightarrow> bool" where
  "bfs_inv ss S st =
     (case st of (dists, visited, queue) \<Rightarrow>
        length dists = totvert ss \<and> length visited = totvert ss
        \<and> (\<forall>u < totvert ss. visited ! u \<longrightarrow>
               reachable ss S u \<and> dists ! u = float_hops (hop_count ss S u))
        \<and> sorted_wrt (\<lambda>a b. hop_count ss S a \<le> hop_count ss S b) queue
        \<and> (\<forall>a \<in> set queue. a < totvert ss \<and> visited ! a
               \<and> hop_count ss S a \<le> hop_count ss S (hd queue) + 1)
        \<and> (queue \<noteq> [] \<longrightarrow>
             (\<forall>w < totvert ss. reachable ss S w \<and> hop_count ss S w \<le> hop_count ss S (hd queue)
               \<longrightarrow> visited ! w))
        \<and> (\<forall>w < totvert ss. visited ! w \<and> w \<notin> set queue
               \<longrightarrow> (\<forall>u \<in> set (vertex_neighbors ss w). visited ! u))
        \<and> (\<forall>s \<in> S. s < totvert ss \<and> visited ! s))"

lemma bfs_invD:
  assumes "bfs_inv ss S (dists, visited, queue)"
  shows "length dists = totvert ss" "length visited = totvert ss"
    and "\<And>u. u < totvert ss \<Longrightarrow> visited ! u \<Longrightarrow> reachable ss S u"
    and "\<And>u. u < totvert ss \<Longrightarrow> visited ! u \<Longrightarrow> dists ! u = float_hops (hop_count ss S u)"
    and "sorted_wrt (\<lambda>a b. hop_count ss S a \<le> hop_count ss S b) queue"
    and "\<And>a. a \<in> set queue \<Longrightarrow> a < totvert ss"
    and "\<And>a. a \<in> set queue \<Longrightarrow> visited ! a"
    and "\<And>a. a \<in> set queue \<Longrightarrow> hop_count ss S a \<le> hop_count ss S (hd queue) + 1"
    and "\<And>w. queue \<noteq> [] \<Longrightarrow> w < totvert ss \<Longrightarrow> reachable ss S w
           \<Longrightarrow> hop_count ss S w \<le> hop_count ss S (hd queue) \<Longrightarrow> visited ! w"
    and "\<And>w u. w < totvert ss \<Longrightarrow> visited ! w \<Longrightarrow> w \<notin> set queue
           \<Longrightarrow> u \<in> set (vertex_neighbors ss w) \<Longrightarrow> visited ! u"
    and "\<And>s. s \<in> S \<Longrightarrow> s < totvert ss"
    and "\<And>s. s \<in> S \<Longrightarrow> visited ! s"
  using assms unfolding bfs_inv_def prod.case by blast+

lemma closed_reachable_visited:
  assumes wf: "wf_neighbors ss"
    and seeds: "\<And>s. s \<in> S \<Longrightarrow> s < totvert ss \<and> visited ! s"
    and closed: "\<And>w u. w < totvert ss \<Longrightarrow> visited ! w \<Longrightarrow> u \<in> set (vertex_neighbors ss w)
                   \<Longrightarrow> visited ! u"
  shows "hops ss S k u \<Longrightarrow> u < totvert ss \<and> visited ! u"
proof (induction rule: hops.induct)
  case (hops_seed s)
  then show ?case by (rule seeds)
next
  case (hops_step k w u)
  then have "u < totvert ss" using wf unfolding wf_neighbors_def by blast
  moreover from hops_step have "visited ! u" using closed by blast
  ultimately show ?case by simp
qed

lemma boundary_bfs_correct:
  "wf_neighbors ss \<Longrightarrow> bfs_inv ss S (dists, visited, queue) \<Longrightarrow>
   \<exists>dists' visited'. boundary_bfs ss dists visited queue = Some (dists', visited')
     \<and> length dists' = totvert ss \<and> length visited' = totvert ss
     \<and> (\<forall>u < totvert ss. visited' ! u = reachable ss S u)
     \<and> (\<forall>u < totvert ss. reachable ss S u \<longrightarrow> dists' ! u = float_hops (hop_count ss S u))"
proof (induction ss dists visited queue rule: boundary_bfs.induct)
  case (1 ss dists visited)
  note inv = bfs_invD [OF "1.prems"(2)]
  have "visited ! u = reachable ss S u" if u: "u < totvert ss" for u
  proof
    assume "visited ! u" with u show "reachable ss S u" by (rule inv(3))
  next
    assume "reachable ss S u"
    then obtain k where "hops ss S k u" unfolding reachable_def ..
    then have "u < totvert ss \<and> visited ! u"
    proof (rule closed_reachable_visited [OF "1.prems"(1), rotated 2])
      fix s assume "s \<in> S" then show "s < totvert ss \<and> visited ! s"
        using inv(11) inv(12) by simp
    next
      fix w u assume "w < totvert ss" "visited ! w" "u \<in> set (vertex_neighbors ss w)"
      then show "visited ! u" using inv(10) [of w u] by simp
    qed
    then show "visited ! u" ..
  qed
  with inv(1,2,4) show ?case by (simp add: boundary_bfs.simps)
next
  case (2 ss dists visited v queue)
  let ?n = "totvert ss"
  let ?hc = "hop_count ss S"
  note wf = "2.prems"(1)
  note inv = bfs_invD [OF "2.prems"(2)]
  have hdq: "hd (v # queue) = v" by simp
  have vq: "v \<in> set (v # queue)" by simp
  have v: "v < ?n" "visited ! v" using inv(6) [OF vq] inv(7) [OF vq] by simp_all
  have sorted: "sorted_wrt (\<lambda>a b. ?hc a \<le> ?hc b) queue" "\<And>a. a \<in> set queue \<Longrightarrow> ?hc v \<le> ?hc a"
    using inv(5) by simp_all
  have inner: "bfs_inner_inv ss S v (dists, visited, queue)"
    unfolding bfs_inner_inv_def prod.case
  proof (intro conjI)
    show "length dists = ?n" "length visited = ?n" by (rule inv(1), rule inv(2))
    show "\<forall>u < ?n. visited ! u \<longrightarrow> reachable ss S u \<and> dists ! u = float_hops (?hc u)"
      using inv(3) inv(4) by blast
    show "sorted_wrt (\<lambda>a b. ?hc a \<le> ?hc b) queue" by (rule sorted(1))
    show "\<forall>a \<in> set queue. a < ?n \<and> visited ! a \<and> ?hc v \<le> ?hc a \<and> ?hc a \<le> ?hc v + 1"
    proof
      fix a assume a: "a \<in> set queue"
      then have "a \<in> set (v # queue)" by simp
      from inv(6) [OF this] inv(7) [OF this] inv(8) [OF this] sorted(2) [OF a]
      show "a < ?n \<and> visited ! a \<and> ?hc v \<le> ?hc a \<and> ?hc a \<le> ?hc v + 1" by simp
    qed
    show "v < ?n" "visited ! v" by (rule v)+
    show "\<forall>w < ?n. reachable ss S w \<and> ?hc w \<le> ?hc v \<longrightarrow> visited ! w"
      using inv(9) [unfolded hdq] by blast
    show "\<forall>w < ?n. visited ! w \<and> w \<notin> set queue \<and> w \<noteq> v
             \<longrightarrow> (\<forall>u \<in> set (vertex_neighbors ss w). visited ! u)"
    proof (intro allI impI ballI)
      fix w u assume w: "w < ?n" "visited ! w \<and> w \<notin> set queue \<and> w \<noteq> v"
        and u: "u \<in> set (vertex_neighbors ss w)"
      from w have "w \<notin> set (v # queue)" by simp
      with w u show "visited ! u" using inv(10) [of w u] by simp
    qed
  qed
  from bfs_visit_inv [OF wf subset_refl inner]
  obtain st' where st': "bfs_visit v (vertex_neighbors ss v) (dists, visited, queue) = Some st'"
    "bfs_inner_inv ss S v st'" "\<forall>u \<in> set (vertex_neighbors ss v). fst (snd st') ! u"
    "\<forall>u < ?n. visited ! u \<longrightarrow> fst (snd st') ! u"
    by auto
  obtain d1 v1 q1 where st: "st' = (d1, v1, q1)" by (cases st') auto
  note j = bfs_inner_invD [OF st'(2) [unfolded st]]
  have nbv: "\<And>u. u \<in> set (vertex_neighbors ss v) \<Longrightarrow> v1 ! u" using st'(3) st by simp
  have mono: "\<And>u. u < ?n \<Longrightarrow> visited ! u \<Longrightarrow> v1 ! u" using st'(4) st by simp
  have closed1: "v1 ! u" if w: "w < ?n" "v1 ! w" "w \<notin> set q1"
    and u: "u \<in> set (vertex_neighbors ss w)" for w u
  proof (cases "w = v")
    case True
    with u show ?thesis using nbv by simp
  next
    case False
    with w u show ?thesis using j(13) [of w u] by simp
  qed
  have inv1: "bfs_inv ss S (d1, v1, q1)"
    unfolding bfs_inv_def prod.case
  proof (intro conjI)
    show "length d1 = ?n" "length v1 = ?n" by (rule j(1), rule j(2))
    show "\<forall>u < ?n. v1 ! u \<longrightarrow> reachable ss S u \<and> d1 ! u = float_hops (?hc u)"
      using j(3) j(4) by blast
    show "sorted_wrt (\<lambda>a b. ?hc a \<le> ?hc b) q1" by (rule j(5))
    show "\<forall>a \<in> set q1. a < ?n \<and> v1 ! a \<and> ?hc a \<le> ?hc (hd q1) + 1"
    proof
      fix a assume a: "a \<in> set q1"
      then have "q1 \<noteq> []" by auto
      then have "hd q1 \<in> set q1" by simp
      from j(8) [OF this] j(9) [OF a] have "?hc a \<le> ?hc (hd q1) + 1" by simp
      with j(6) [OF a] j(7) [OF a] show "a < ?n \<and> v1 ! a \<and> ?hc a \<le> ?hc (hd q1) + 1" by simp
    qed
    show "q1 \<noteq> [] \<longrightarrow>
         (\<forall>w < ?n. reachable ss S w \<and> ?hc w \<le> ?hc (hd q1) \<longrightarrow> v1 ! w)"
    proof (intro impI allI)
      fix w assume ne: "q1 \<noteq> []" and w: "w < ?n" "reachable ss S w \<and> ?hc w \<le> ?hc (hd q1)"
      from ne have hq: "hd q1 \<in> set q1" by simp
      have low: "?hc v \<le> ?hc (hd q1)" "?hc (hd q1) \<le> ?hc v + 1"
        using j(8) [OF hq] j(9) [OF hq] by simp_all
      have allge: "\<And>a. a \<in> set q1 \<Longrightarrow> ?hc (hd q1) \<le> ?hc a"
        using j(5) ne by (cases q1) auto
      show "v1 ! w"
      proof (cases "?hc w \<le> ?hc v")
        case True
        with w show ?thesis using j(12) [of w] by simp
      next
        case False
        with w low have hw: "?hc w = ?hc v + 1" "?hc (hd q1) = ?hc v + 1" by simp_all
        have "w \<notin> S"
        proof
          assume "w \<in> S"
          then have "?hc w = 0" using hop_count_seed by blast
          with hw show False by simp
        qed
        with w obtain p where p: "reachable ss S p" "w \<in> set (vertex_neighbors ss p)"
          "?hc p < ?hc w" using hop_count_pred [of ss S w] by blast
        from p(1) obtain k where "hops ss S k p" unfolding reachable_def ..
        have pn: "p < ?n"
        proof -
          have "hops ss S k p \<Longrightarrow> p < ?n" for k
          proof (induction rule: hops.induct)
            case (hops_seed s)
            then show ?case using inv(11) by simp
          next
            case (hops_step k w u)
            then show ?case using wf unfolding wf_neighbors_def by blast
          qed
          with \<open>hops ss S k p\<close> show ?thesis by simp
        qed
        from p(3) hw have "?hc p \<le> ?hc v" by simp
        with pn p(1) have pv: "v1 ! p" using j(12) [of p] by simp
        have "p \<notin> set q1"
        proof
          assume "p \<in> set q1"
          from allge [OF this] p(3) hw show False by simp
        qed
        with pn pv have "p < ?n" "v1 ! p" "p \<notin> set q1" by simp_all
        then show ?thesis using p(2) by (rule closed1)
      qed
    qed
    show "\<forall>w < ?n. v1 ! w \<and> w \<notin> set q1 \<longrightarrow> (\<forall>u \<in> set (vertex_neighbors ss w). v1 ! u)"
      using closed1 by blast
    show "\<forall>s \<in> S. s < ?n \<and> v1 ! s"
      using inv(11) inv(12) mono by blast
  qed
  from "2.IH" [OF st'(1) [unfolded st] refl refl wf inv1]
  obtain dists' visited' where r: "boundary_bfs ss d1 v1 q1 = Some (dists', visited')"
    "length dists' = ?n" "length visited' = ?n"
    "\<forall>u < ?n. visited' ! u = reachable ss S u"
    "\<forall>u < ?n. reachable ss S u \<longrightarrow> dists' ! u = float_hops (?hc u)"
    by blast
  have "boundary_bfs ss dists visited (v # queue) = boundary_bfs ss d1 v1 q1"
    using st'(1) st by (subst boundary_bfs.simps) simp
  with r show ?case by simp
qed

text \<open>The vertices of one boundary are queued and marked as visited.\<close>

fun push_boundary :: "nat list \<Rightarrow> bool list \<times> nat list \<Rightarrow> (bool list \<times> nat list) option" where
  "push_boundary [] st = Some st"
| "push_boundary (b # bs) (visited, queue) =
     (if length visited \<le> b then None
      else push_boundary bs (visited[b := True], queue @ [b]))"

text \<open>The loop over the symmetry iterations. A null boundary is dereferenced by the
  source, which is \<open>None\<close> here.\<close>

function boundary_seed_loop ::
  "SculptSession \<Rightarrow> int \<Rightarrow> nat \<Rightarrow> nat \<Rightarrow> bool list \<times> nat list \<Rightarrow> (bool list \<times> nat list) option"
where
  "boundary_seed_loop ss vertex symm symm_it st =
     (if symm_it \<le> symm then
        (if \<not> symmetry_iteration_valid ss symm_it symm
         then boundary_seed_loop ss vertex symm (symm_it + 1) st
         else
           (case boundary_data_init ss (symm_origin ss vertex symm_it) of
              None \<Rightarrow> None
            | Some boundary \<Rightarrow>
                (case push_boundary boundary st of
                   None \<Rightarrow> None
                 | Some st' \<Rightarrow> boundary_seed_loop ss vertex symm (symm_it + 1) st')))
      else Some st)"
  by pat_completeness auto
termination
  by (relation "measure (\<lambda>(ss, vertex, symm, symm_it, st). symm + 1 - symm_it)") auto

declare boundary_seed_loop.simps [simp del]

definition sculpt_expand_boundary_topology_falloff_create ::
  "SculptSession \<Rightarrow> int \<Rightarrow> real list option" where
  "sculpt_expand_boundary_topology_falloff_create ss vertex =
     (let dists = replicate (totvert ss) 0;
          visited_vertices = replicate (totvert ss) False
      in case boundary_seed_loop ss vertex (mesh_symmetry ss) 0 (visited_vertices, []) of
           None \<Rightarrow> None
         | Some (visited_vertices, queue) \<Rightarrow>
             if queue = [] then Some dists
             else
               (case boundary_bfs ss dists visited_vertices queue of
                  None \<Rightarrow> None
                | Some (dists, visited_vertices) \<Rightarrow>
                    Some (map (\<lambda>i. if visited_vertices ! i then dists ! i else FLT_MAX)
                            [0 ..< totvert ss])))"

text \<open>The union of the boundaries of the valid symmetry iterations from \<open>from\<close> on.\<close>

definition boundary_seeds :: "SculptSession \<Rightarrow> int \<Rightarrow> nat \<Rightarrow> nat set" where
  "boundary_seeds ss vertex from =
     {u. \<exists>k b. from \<le> k \<and> k \<le> mesh_symmetry ss
            \<and> symmetry_iteration_valid ss k (mesh_symmetry ss)
            \<and> boundary_data_init ss (symm_origin ss vertex k) = Some b \<and> u \<in> set b}"

definition boundaries_found :: "SculptSession \<Rightarrow> int \<Rightarrow> bool" where
  "boundaries_found ss vertex =
     (\<forall>k \<le> mesh_symmetry ss. symmetry_iteration_valid ss k (mesh_symmetry ss) \<longrightarrow>
        (\<exists>b. boundary_data_init ss (symm_origin ss vertex k) = Some b
             \<and> (\<forall>u \<in> set b. u < totvert ss)))"

lemma push_boundary_result:
  "\<forall>u \<in> set bs. u < length visited \<Longrightarrow>
   \<exists>visited'. push_boundary bs (visited, queue) = Some (visited', queue @ bs)
     \<and> length visited' = length visited
     \<and> (\<forall>u < length visited. visited' ! u = (visited ! u \<or> u \<in> set bs))"
proof (induction bs arbitrary: visited queue)
  case Nil
  then show ?case by simp
next
  case (Cons b bs)
  from Cons.prems have b: "b < length visited" and bs: "\<forall>u \<in> set bs. u < length (visited[b := True])"
    by simp_all
  from Cons.IH [OF bs, of "queue @ [b]"] obtain visited' where
    r: "push_boundary bs (visited[b := True], queue @ [b]) = Some (visited', (queue @ [b]) @ bs)"
      "length visited' = length (visited[b := True])"
      "\<forall>u < length (visited[b := True]). visited' ! u = (visited[b := True] ! u \<or> u \<in> set bs)"
    by blast
  have "visited' ! u = (visited ! u \<or> u \<in> set (b # bs))" if "u < length visited" for u
    using r(3) that b by (auto simp: nth_list_update)
  with r(1,2) b show ?case by simp
qed

lemma boundary_seed_loop_result:
  "symm = mesh_symmetry ss \<Longrightarrow> boundaries_found ss vertex \<Longrightarrow> length visited = totvert ss \<Longrightarrow>
   \<exists>visited' queue'. boundary_seed_loop ss vertex symm symm_it (visited, queue) = Some (visited', queue')
     \<and> length visited' = totvert ss
     \<and> set queue' = set queue \<union> boundary_seeds ss vertex symm_it
     \<and> (\<forall>u < totvert ss. visited' ! u = (visited ! u \<or> u \<in> boundary_seeds ss vertex symm_it))"
proof (induction ss vertex symm symm_it "(visited, queue)" arbitrary: visited queue
    rule: boundary_seed_loop.induct)
  case (1 ss vertex symm symm_it)
  let ?n = "totvert ss"
  show ?case
  proof (cases "symm_it \<le> symm")
    case False
    with "1.prems"(1) have "boundary_seeds ss vertex symm_it = {}"
      by (auto simp: boundary_seeds_def)
    with False "1.prems"(3) show ?thesis by (subst boundary_seed_loop.simps) simp
  next
    case le: True
    have from_it: "(symm_it \<le> k) = (k = symm_it \<or> symm_it + 1 \<le> k)" for k by auto
    show ?thesis
    proof (cases "symmetry_iteration_valid ss symm_it symm")
      case False
      with "1.prems"(1) have same: "boundary_seeds ss vertex symm_it = boundary_seeds ss vertex (symm_it + 1)"
        unfolding boundary_seeds_def by (subst from_it) auto
      from le False have "boundary_seed_loop ss vertex symm symm_it (visited, queue)
          = boundary_seed_loop ss vertex symm (symm_it + 1) (visited, queue)"
        by (subst boundary_seed_loop.simps) simp
      with "1.hyps"(1) [OF le _ "1.prems"] False same show ?thesis by simp
    next
      case valid: True
      with le "1.prems"(1,2) obtain b where b: "boundary_data_init ss (symm_origin ss vertex symm_it) = Some b"
        "\<forall>u \<in> set b. u < ?n" unfolding boundaries_found_def by blast
      with "1.prems"(1) valid le
      have seeds: "boundary_seeds ss vertex symm_it = set b \<union> boundary_seeds ss vertex (symm_it + 1)"
        unfolding boundary_seeds_def by (subst from_it) auto
      from b(2) "1.prems"(3) have "\<forall>u \<in> set b. u < length visited" by simp
      from push_boundary_result [OF this, of queue] obtain v1 where
        p: "push_boundary b (visited, queue) = Some (v1, queue @ b)" "length v1 = length visited"
          "\<forall>u < length visited. v1 ! u = (visited ! u \<or> u \<in> set b)" by blast
      from "1.prems"(3) p(2) have len1: "length v1 = ?n" by simp
      from "1.hyps"(2) [OF le _ b(1) p(1) "1.prems"(1,2) len1] valid
      obtain visited' queue' where r:
        "boundary_seed_loop ss vertex symm (symm_it + 1) (v1, queue @ b) = Some (visited', queue')"
        "length visited' = ?n"
        "set queue' = set (queue @ b) \<union> boundary_seeds ss vertex (symm_it + 1)"
        "\<forall>u < ?n. visited' ! u = (v1 ! u \<or> u \<in> boundary_seeds ss vertex (symm_it + 1))"
        by auto
      from le valid b(1) p(1) have "boundary_seed_loop ss vertex symm symm_it (visited, queue)
          = boundary_seed_loop ss vertex symm (symm_it + 1) (v1, queue @ b)"
        by (subst boundary_seed_loop.simps) simp
      moreover have "set queue' = set queue \<union> boundary_seeds ss vertex symm_it"
        using r(3) seeds by auto
      moreover have "\<forall>u < ?n. visited' ! u = (visited ! u \<or> u \<in> boundary_seeds ss vertex symm_it)"
        using r(4) p(3) seeds "1.prems"(3) by auto
      ultimately show ?thesis using r(1,2) by simp
    qed
  qed
qed

lemma hops_zero: "hops ss S 0 u \<Longrightarrow> u \<in> S"
  by (erule hops.cases) simp_all

text \<open>
  The values of the boundary topology falloff, when every valid symmetry iteration yields a
  boundary whose vertices are vertices of the mesh, and the neighbour lists stay inside
  the mesh.
\<close>

lemma boundary_topology_falloff_values:
  assumes "wf_neighbors ss" "boundaries_found ss vertex"
  shows "\<exists>dists. sculpt_expand_boundary_topology_falloff_create ss vertex = Some dists
     \<and> length dists = totvert ss
     \<and> (\<forall>u < totvert ss. dists ! u =
            (if boundary_seeds ss vertex 0 = {} then 0
             else if reachable ss (boundary_seeds ss vertex 0) u
                  then float_hops (hop_count ss (boundary_seeds ss vertex 0) u)
                  else FLT_MAX))"
proof -
  let ?n = "totvert ss"
  let ?S = "boundary_seeds ss vertex 0"
  from boundary_seed_loop_result [OF refl assms(2), of "replicate ?n False" 0 "[]"]
  obtain visited queue where s:
    "boundary_seed_loop ss vertex (mesh_symmetry ss) 0 (replicate ?n False, []) = Some (visited, queue)"
    "length visited = ?n" "set queue = ?S" "\<forall>u < ?n. visited ! u = (u \<in> ?S)"
    by auto
  show ?thesis
  proof (cases "queue = []")
    case True
    with s(3) have "?S = {}" by simp
    with s(1) True show ?thesis
      by (simp add: sculpt_expand_boundary_topology_falloff_create_def)
  next
    case False
    with s(3) have ne: "?S \<noteq> {}" by auto
    have sn: "u < ?n" if "u \<in> ?S" for u
      using that assms(2) unfolding boundary_seeds_def boundaries_found_def by fastforce
    have hc0: "hop_count ss ?S u = 0" "reachable ss ?S u" if "u \<in> ?S" for u
      using hop_count_seed [OF that, of ss] by simp_all
    have inv: "bfs_inv ss ?S (replicate ?n 0, visited, queue)"
      unfolding bfs_inv_def prod.case
    proof (intro conjI)
      show "length (replicate ?n (0::real)) = ?n" by simp
      show "length visited = ?n" by (rule s(2))
      show "\<forall>u < ?n. visited ! u \<longrightarrow>
             reachable ss ?S u \<and> replicate ?n 0 ! u = float_hops (hop_count ss ?S u)"
        using s(4) hc0 by (simp add: float_hops_0)
      show "sorted_wrt (\<lambda>a b. hop_count ss ?S a \<le> hop_count ss ?S b) queue"
      proof -
        have "hop_count ss ?S a \<le> hop_count ss ?S b" if "a \<in> set queue" "b \<in> set queue" for a b
          using that s(3) hc0(1) by simp
        then show ?thesis by (simp add: sorted_wrt_iff_nth_less)
      qed
      show "\<forall>a \<in> set queue. a < ?n \<and> visited ! a
             \<and> hop_count ss ?S a \<le> hop_count ss ?S (hd queue) + 1"
        using s(3,4) sn hc0(1) by simp
      show "queue \<noteq> [] \<longrightarrow> (\<forall>w < ?n. reachable ss ?S w
             \<and> hop_count ss ?S w \<le> hop_count ss ?S (hd queue) \<longrightarrow> visited ! w)"
      proof (intro impI allI)
        fix w assume q: "queue \<noteq> []" and w: "w < ?n"
          "reachable ss ?S w \<and> hop_count ss ?S w \<le> hop_count ss ?S (hd queue)"
        from q s(3) have "hd queue \<in> ?S" using hd_in_set by blast
        with w hc0(1) have "hop_count ss ?S w = 0" by simp
        with w have "hops ss ?S 0 w" using hop_count_hops [of ss ?S w] by simp
        then have "w \<in> ?S" by (rule hops_zero)
        with s(4) w(1) show "visited ! w" by simp
      qed
      show "\<forall>w < ?n. visited ! w \<and> w \<notin> set queue
             \<longrightarrow> (\<forall>u \<in> set (vertex_neighbors ss w). visited ! u)"
        using s(3,4) by simp
      show "\<forall>s \<in> ?S. s < ?n \<and> visited ! s" using s(4) sn by simp
    qed
    from boundary_bfs_correct [OF assms(1) inv]
    obtain dists' visited' where r: "boundary_bfs ss (replicate ?n 0) visited queue = Some (dists', visited')"
      "length dists' = ?n" "length visited' = ?n"
      "\<forall>u < ?n. visited' ! u = reachable ss ?S u"
      "\<forall>u < ?n. reachable ss ?S u \<longrightarrow> dists' ! u = float_hops (hop_count ss ?S u)"
      by blast
    from s(1) False r(1) have "sculpt_expand_boundary_topology_falloff_create ss vertex
        = Some (map (\<lambda>i. if visited' ! i then dists' ! i else FLT_MAX) [0 ..< ?n])"
      by (simp add: sculpt_expand_boundary_topology_falloff_create_def)
    with ne r(4,5) show ?thesis by simp
  qed
qed

definition path_mesh :: SculptSession where
  "path_mesh =
     \<lparr>totvert = 4, totfaces = 0,
      vert_co = (\<lambda>v. (real v, 0, 0)),
      vert_no = (\<lambda>v. (0, 0, 1)),
      vert_neighbors = (\<lambda>v. if v = 0 then [(1, False)]
                             else if v = 1 then [(0, False), (2, False)]
                             else if v = 2 then [(1, False)] else []),
      mesh_symmetry = 0,
      symmetry_iteration_valid = (\<lambda>i symm. True),
      flip_v3 = (\<lambda>co symm. co),
      nearest_vertex = (\<lambda>co. - 1),
      boundary_data_init = (\<lambda>v. if v = 0 then Some [0] else Some [])\<rparr>"

lemma boundary_seed_loop_step_valid:
  "symm_it \<le> symm \<Longrightarrow> symmetry_iteration_valid ss symm_it symm \<Longrightarrow>
   boundary_seed_loop ss vertex symm symm_it st =
     (case boundary_data_init ss (symm_origin ss vertex symm_it) of
        None \<Rightarrow> None
      | Some boundary \<Rightarrow>
          (case push_boundary boundary st of
             None \<Rightarrow> None
           | Some st' \<Rightarrow> boundary_seed_loop ss vertex symm (symm_it + 1) st'))"
  by (subst boundary_seed_loop.simps) simp

lemma boundary_seed_loop_step_skip:
  "symm_it \<le> symm \<Longrightarrow> \<not> symmetry_iteration_valid ss symm_it symm \<Longrightarrow>
   boundary_seed_loop ss vertex symm symm_it st = boundary_seed_loop ss vertex symm (symm_it + 1) st"
  by (subst boundary_seed_loop.simps) simp

lemma boundary_seed_loop_stop:
  "\<not> symm_it \<le> symm \<Longrightarrow> boundary_seed_loop ss vertex symm symm_it st = Some st"
  by (subst boundary_seed_loop.simps) simp

lemma path_mesh_falloff:
  "sculpt_expand_boundary_topology_falloff_create path_mesh 0 = Some [0, 1, 2, FLT_MAX]"
  by (simp add: sculpt_expand_boundary_topology_falloff_create_def path_mesh_def
      boundary_seed_loop_step_valid boundary_seed_loop_step_skip boundary_seed_loop_stop
      symm_origin_def boundary_bfs.simps vertex_neighbors_def numeral_eq_Suc upt_rec
      add_one_f_def)


text \<open>
  A path of five vertices, mirrored at its middle vertex 2, and an isolated vertex 5. The
  boundary through an end of the path is that end; the origin 0 has the mirror image 4.
\<close>

definition mirror_path_mesh :: SculptSession where
  "mirror_path_mesh =
     \<lparr>totvert = 6, totfaces = 0,
      vert_co = (\<lambda>v. (real v - 2, 0, 0)),
      vert_no = (\<lambda>v. (0, 0, 1)),
      vert_neighbors = (\<lambda>v. if v = 0 then [(1, False)]
                             else if v = 4 then [(3, False)]
                             else if v = 5 then []
                             else [(v - 1, False), (v + 1, False)]),
      mesh_symmetry = 1,
      symmetry_iteration_valid = (\<lambda>i symm. True),
      flip_v3 = (\<lambda>co symm. case co of (x, y, z) \<Rightarrow> if symm = 1 then (- x, y, z) else (x, y, z)),
      nearest_vertex = (\<lambda>co. if co = (2, 0, 0) then 4 else if co = (- 2, 0, 0) then 0 else - 1),
      boundary_data_init = (\<lambda>v. if v = 0 then Some [0] else if v = 4 then Some [4] else Some [])\<rparr>"

lemma mirror_path_mesh_falloff:
  "sculpt_expand_boundary_topology_falloff_create mirror_path_mesh 0
   = Some [0, 1, 2, 1, 0, FLT_MAX]"
  by (simp add: sculpt_expand_boundary_topology_falloff_create_def mirror_path_mesh_def
      boundary_seed_loop_step_valid boundary_seed_loop_step_skip boundary_seed_loop_stop
      symm_origin_def boundary_bfs.simps vertex_neighbors_def numeral_eq_Suc upt_rec
      add_one_f_def)

text \<open>The same path without a boundary lookup result: the lookup returns the null
  pointer.\<close>

definition no_boundary_mesh :: SculptSession where
  "no_boundary_mesh = path_mesh\<lparr>boundary_data_init := (\<lambda>v. None)\<rparr>"

text \<open>A path of \<open>2^25 + 1\<close> vertices with the boundary \<open>{0}\<close> at its first vertex; the
  last vertex is \<open>2^25 = 33554432\<close> hops away, a number that is itself a float.\<close>

definition long_path_mesh :: SculptSession where
  "long_path_mesh =
     \<lparr>totvert = 33554433, totfaces = 0,
      vert_co = (\<lambda>v. (real v, 0, 0)),
      vert_no = (\<lambda>v. (0, 0, 1)),
      vert_neighbors = (\<lambda>v. if v = 0 then [(1, False)]
                             else if v + 1 < 33554433 then [(v - 1, False), (v + 1, False)]
                             else [(v - 1, False)]),
      mesh_symmetry = 0,
      symmetry_iteration_valid = (\<lambda>i symm. True),
      flip_v3 = (\<lambda>co symm. co),
      nearest_vertex = (\<lambda>co. - 1),
      boundary_data_init = (\<lambda>v. if v = 0 then Some [0] else Some [])\<rparr>"

lemma long_path_neighbors:
  "vertex_neighbors long_path_mesh v =
     (if v = 0 then [1] else if v + 1 < 33554433 then [v - 1, v + 1] else [v - 1])"
  by (simp add: vertex_neighbors_def long_path_mesh_def)

lemma long_path_hops: "u < 33554433 \<Longrightarrow> hops long_path_mesh {0} u u"
proof (induction u)
  case 0
  show ?case by (rule hops_seed) simp
next
  case (Suc u)
  then have "hops long_path_mesh {0} u u" by simp
  moreover from Suc.prems have "Suc u \<in> set (vertex_neighbors long_path_mesh u)"
    by (simp add: long_path_neighbors)
  ultimately show ?case by (rule hops_step)
qed

lemma long_path_hops_le: "hops long_path_mesh {0} k u \<Longrightarrow> u \<le> k"
proof (induction rule: hops.induct)
  case (hops_seed s)
  then show ?case by simp
next
  case (hops_step k w u)
  from hops_step(2) have "u \<le> Suc w"
    by (auto simp: long_path_neighbors split: if_splits)
  with hops_step(3) show ?case by simp
qed

lemma long_path_hop_count:
  assumes "u < 33554433"
  shows "reachable long_path_mesh {0} u" "hop_count long_path_mesh {0} u = u"
proof -
  from assms have h: "hops long_path_mesh {0} u u" by (rule long_path_hops)
  then show "reachable long_path_mesh {0} u" unfolding reachable_def ..
  from h show "hop_count long_path_mesh {0} u = u"
    unfolding hop_count_def by (rule Least_equality) (rule long_path_hops_le)
qed

lemma long_path_falloff:
  "\<exists>dists. sculpt_expand_boundary_topology_falloff_create long_path_mesh 0 = Some dists
     \<and> dists ! 33554432 = 16777216"
proof -
  have wf: "wf_neighbors long_path_mesh"
    unfolding wf_neighbors_def long_path_neighbors by (auto simp: long_path_mesh_def)
  have found: "boundaries_found long_path_mesh 0"
    unfolding boundaries_found_def by (simp add: long_path_mesh_def symm_origin_def)
  have seeds: "boundary_seeds long_path_mesh 0 0 = {0}"
    unfolding boundary_seeds_def by (auto simp: long_path_mesh_def symm_origin_def)
  from boundary_topology_falloff_values [OF wf found] obtain dists where
    d: "sculpt_expand_boundary_topology_falloff_create long_path_mesh 0 = Some dists"
    and v: "\<forall>u < totvert long_path_mesh. dists ! u =
            (if boundary_seeds long_path_mesh 0 0 = {} then 0
             else if reachable long_path_mesh (boundary_seeds long_path_mesh 0 0) u
                  then float_hops (hop_count long_path_mesh (boundary_seeds long_path_mesh 0 0) u)
                  else FLT_MAX)"
    by blast
  have "(33554432::nat) < totvert long_path_mesh" by (simp add: long_path_mesh_def)
  with v have "dists ! 33554432 =
            (if reachable long_path_mesh {0} 33554432
             then float_hops (hop_count long_path_mesh {0} 33554432) else FLT_MAX)"
    unfolding seeds by simp
  then have "dists ! 33554432 = 16777216"
    using long_path_hop_count [of 33554432] by (simp add: float_hops_def)
  with d show ?thesis by blast
qed

text \<open>
  Claim C6, as amended. When the boundary lookup yields a boundary (possibly empty) of mesh
  vertices for every valid symmetry iteration, and the neighbour lists stay inside the
  mesh, the boundary topology falloff returns one value per vertex: 0 everywhere when the
  boundaries hold no vertex at all; otherwise, for every vertex reachable from the union
  of the boundaries, its hop count from that union as the float counts it (exact up to
  \<open>2^24\<close> hops, 16777216 beyond), and \<^verbatim>\<open>FLT_MAX\<close> for every other vertex.
\<close>

theorem boundary_topology_falloff:
  assumes "wf_neighbors ss" "boundaries_found ss vertex"
  shows "\<exists>dists. sculpt_expand_boundary_topology_falloff_create ss vertex = Some dists
     \<and> length dists = totvert ss
     \<and> (\<forall>u < totvert ss. dists ! u =
            (if boundary_seeds ss vertex 0 = {} then 0
             else if reachable ss (boundary_seeds ss vertex 0) u
                  then (if hop_count ss (boundary_seeds ss vertex 0) u \<le> 16777216
                        then real (hop_count ss (boundary_seeds ss vertex 0) u)
                        else 16777216)
                  else FLT_MAX))"
proof -
  have fh: "float_hops k = (if k \<le> 16777216 then real k else 16777216)" for k
    by (simp add: float_hops_def min_def)
  from boundary_topology_falloff_values [OF assms] obtain dists where
    d: "sculpt_expand_boundary_topology_falloff_create ss vertex = Some dists"
    and len: "length dists = totvert ss"
    and v: "\<forall>u < totvert ss. dists ! u =
            (if boundary_seeds ss vertex 0 = {} then 0
             else if reachable ss (boundary_seeds ss vertex 0) u
                  then float_hops (hop_count ss (boundary_seeds ss vertex 0) u)
                  else FLT_MAX)"
    by blast
  from v have "\<forall>u < totvert ss. dists ! u =
            (if boundary_seeds ss vertex 0 = {} then 0
             else if reachable ss (boundary_seeds ss vertex 0) u
                  then (if hop_count ss (boundary_seeds ss vertex 0) u \<le> 16777216
                        then real (hop_count ss (boundary_seeds ss vertex 0) u)
                        else 16777216)
                  else FLT_MAX)"
    by (simp only: fh)
  with d len show ?thesis by blast
qed

theorem boundary_topology_falloff_witness:
  "sculpt_expand_boundary_topology_falloff_create mirror_path_mesh 0
     = Some [0, 1, 2, 1, 0, FLT_MAX]
   \<and> boundary_seeds mirror_path_mesh 0 0 = {0, 4}
   \<and> reachable mirror_path_mesh {0, 4} 2 \<and> hop_count mirror_path_mesh {0, 4} 2 = 2
   \<and> \<not> reachable mirror_path_mesh {0, 4} 5"
proof -
  have nb: "vertex_neighbors mirror_path_mesh v =
      (if v = 0 then [1] else if v = 4 then [3] else if v = 5 then [] else [v - 1, v + 1])" for v
    by (simp add: vertex_neighbors_def mirror_path_mesh_def)
  have wf: "wf_neighbors mirror_path_mesh"
    unfolding wf_neighbors_def nb by (auto simp: mirror_path_mesh_def)
  have origin: "symm_origin mirror_path_mesh 0 0 = 0" "symm_origin mirror_path_mesh 0 (Suc 0) = 4"
    by (simp_all add: symm_origin_def mirror_path_mesh_def)
  have sym: "mesh_symmetry mirror_path_mesh = Suc 0" by (simp add: mirror_path_mesh_def)
  have bd: "boundary_data_init mirror_path_mesh 0 = Some [0]"
    "boundary_data_init mirror_path_mesh 4 = Some [4]"
    by (simp_all add: mirror_path_mesh_def)
  have k01: "k = 0 \<or> k = Suc 0" if "k \<le> Suc 0" for k using that by arith
  have found: "boundaries_found mirror_path_mesh 0"
    unfolding boundaries_found_def sym
  proof (intro allI impI)
    fix k assume "k \<le> Suc 0"
    then have "k = 0 \<or> k = Suc 0" by (rule k01)
    then show "\<exists>b. boundary_data_init mirror_path_mesh (symm_origin mirror_path_mesh 0 k) = Some b
        \<and> (\<forall>u \<in> set b. u < totvert mirror_path_mesh)"
    proof
      assume "k = 0"
      then show ?thesis by (simp add: origin bd) (simp add: mirror_path_mesh_def)
    next
      assume "k = Suc 0"
      then show ?thesis by (simp add: origin bd) (simp add: mirror_path_mesh_def)
    qed
  qed
  have seeds: "boundary_seeds mirror_path_mesh 0 0 = {0, 4}"
  proof (intro set_eqI iffI)
    fix u assume "u \<in> boundary_seeds mirror_path_mesh 0 0"
    then obtain k b where kb: "k \<le> Suc 0"
      "boundary_data_init mirror_path_mesh (symm_origin mirror_path_mesh 0 k) = Some b" "u \<in> set b"
      unfolding boundary_seeds_def sym by blast
    from k01 [OF kb(1)] show "u \<in> {0, 4}"
    proof
      assume "k = 0"
      with kb(2,3) show ?thesis by (auto simp: origin bd)
    next
      assume "k = Suc 0"
      with kb(2,3) show ?thesis by (auto simp: origin bd)
    qed
  next
    fix u :: nat assume "u \<in> {0, 4}"
    then have "u = 0 \<or> u = 4" by simp
    then show "u \<in> boundary_seeds mirror_path_mesh 0 0"
    proof
      assume u: "u = 0"
      have "0 \<le> (0::nat) \<and> (0::nat) \<le> Suc 0
          \<and> symmetry_iteration_valid mirror_path_mesh 0 (Suc 0)
          \<and> boundary_data_init mirror_path_mesh (symm_origin mirror_path_mesh 0 0) = Some [0]
          \<and> u \<in> set [0]"
        using u by (simp add: origin bd) (simp add: mirror_path_mesh_def)
      then show ?thesis unfolding boundary_seeds_def sym by blast
    next
      assume u: "u = 4"
      have "0 \<le> Suc 0 \<and> Suc 0 \<le> Suc 0
          \<and> symmetry_iteration_valid mirror_path_mesh (Suc 0) (Suc 0)
          \<and> boundary_data_init mirror_path_mesh (symm_origin mirror_path_mesh 0 (Suc 0)) = Some [4]
          \<and> u \<in> set [4]"
        using u by (simp add: origin bd) (simp add: mirror_path_mesh_def)
      then show ?thesis unfolding boundary_seeds_def sym by blast
    qed
  qed
  from boundary_topology_falloff [OF wf found] obtain dists where
    d: "sculpt_expand_boundary_topology_falloff_create mirror_path_mesh 0 = Some dists"
    and v: "\<forall>u < totvert mirror_path_mesh. dists ! u =
            (if boundary_seeds mirror_path_mesh 0 0 = {} then 0
             else if reachable mirror_path_mesh (boundary_seeds mirror_path_mesh 0 0) u
                  then (if hop_count mirror_path_mesh (boundary_seeds mirror_path_mesh 0 0) u
                           \<le> 16777216
                        then real (hop_count mirror_path_mesh (boundary_seeds mirror_path_mesh 0 0) u)
                        else 16777216)
                  else FLT_MAX)"
    by blast
  from d have dists: "dists = [0, 1, 2, 1, 0, FLT_MAX]" by (simp add: mirror_path_mesh_falloff)
  have val: "dists ! u =
            (if reachable mirror_path_mesh {0, 4} u
             then (if hop_count mirror_path_mesh {0, 4} u \<le> 16777216
                   then real (hop_count mirror_path_mesh {0, 4} u) else 16777216)
             else FLT_MAX)" if "u < 6" for u
    using v that unfolding seeds by (simp add: mirror_path_mesh_def)
  from val [of 2] have "reachable mirror_path_mesh {0, 4} 2 \<and> hop_count mirror_path_mesh {0, 4} 2 = 2"
    unfolding dists by (simp add: FLT_MAX_def split: if_splits)
  moreover from val [of 5] have "\<not> reachable mirror_path_mesh {0, 4} 5"
    unfolding dists by (simp add: FLT_MAX_def split: if_splits)
  ultimately show ?thesis using seeds by (simp add: mirror_path_mesh_falloff)
qed

text \<open>
  The claim as stated fails in two ways. When the boundary lookup returns the null pointer
  no boundary vertex is found, but the build follows the pointer and yields no values at
  all. And on the long path the last vertex is \<open>2^25\<close> hops from the boundary but holds
  the value \<open>2^24\<close>.
\<close>

theorem boundary_topology_counterexample:
  "boundary_seeds no_boundary_mesh 0 0 = {}
   \<and> sculpt_expand_boundary_topology_falloff_create no_boundary_mesh 0 = None
   \<and> reachable long_path_mesh {0} 33554432
   \<and> hop_count long_path_mesh {0} 33554432 = 33554432
   \<and> sculpt_expand_boundary_topology_falloff_create long_path_mesh 0 \<noteq> None
   \<and> the (sculpt_expand_boundary_topology_falloff_create long_path_mesh 0) ! 33554432 = 16777216"
proof -
  have "boundary_seeds no_boundary_mesh 0 0 = {}"
    by (simp add: boundary_seeds_def no_boundary_mesh_def)
  moreover have "sculpt_expand_boundary_topology_falloff_create no_boundary_mesh 0 = None"
    by (simp add: sculpt_expand_boundary_topology_falloff_create_def no_boundary_mesh_def
        path_mesh_def boundary_seed_loop_step_valid)
  moreover from long_path_falloff
  have "sculpt_expand_boundary_topology_falloff_create long_path_mesh 0 \<noteq> None
   \<and> the (sculpt_expand_boundary_topology_falloff_create long_path_mesh 0) ! 33554432 = 16777216"
    by auto
  ultimately show ?thesis using long_path_hop_count [of 33554432] by simp
qed


subsection \<open>Flood fill over the vertices\<close>

text \<open>\<^verbatim>\<open>ExpandFloodFillData\<close>; the fields carry the prefix \<open>fd\<close>.\<close>

record ExpandFloodFillData =
  fd_original_normal :: vec3
  fd_edge_sensitivity :: real
  fd_dists :: "real list"
  fd_edge_factor :: "real list"

text \<open>
  Modelled from the spec: \<^verbatim>\<open>SCULPT_floodfill_execute\<close>, whose source is not among the files.
  The spec describes a breadth-first traversal of the vertex adjacency from the origin
  set that calls a visitor with \<open>(from, to, is_duplicate)\<close> for every vertex when it is
  first discovered. The neighbour loop below does that for the neighbours \<open>ns\<close> of
  \<open>from_v\<close> still to come; the visitor returns whether the vertex is queued, and the
  updated user data.
\<close>

fun floodfill_visit ::
  "(SculptSession \<Rightarrow> nat \<Rightarrow> nat \<Rightarrow> bool \<Rightarrow> 'd \<Rightarrow> bool \<times> 'd) \<Rightarrow> SculptSession \<Rightarrow> nat
   \<Rightarrow> (nat \<times> bool) list \<Rightarrow> 'd \<times> bool list \<times> nat list \<Rightarrow> ('d \<times> bool list \<times> nat list) option"
where
  "floodfill_visit func ss from_v [] st = Some st"
| "floodfill_visit func ss from_v (ni # ns) (userdata, visited, queue) =
     (if length visited \<le> fst ni then None
      else if visited ! fst ni then floodfill_visit func ss from_v ns (userdata, visited, queue)
      else
        (case func ss from_v (fst ni) (snd ni) userdata of
           (push, userdata') \<Rightarrow>
             floodfill_visit func ss from_v ns
               (userdata', visited[fst ni := True],
                if push then queue @ [fst ni] else queue)))"

lemma floodfill_visit_measure:
  "floodfill_visit func ss from_v ns (userdata, visited, queue) = Some (userdata', visited', queue') \<Longrightarrow>
   2 * unvisited visited' + length queue' \<le> 2 * unvisited visited + length queue
   \<and> length visited' = length visited"
proof (induction ns arbitrary: userdata visited queue)
  case Nil
  then show ?case by simp
next
  case (Cons ni ns)
  show ?case
  proof (cases "visited ! fst ni")
    case True
    with Cons.prems have "floodfill_visit func ss from_v ns (userdata, visited, queue)
        = Some (userdata', visited', queue')"
      by (simp split: if_splits)
    then show ?thesis by (rule Cons.IH)
  next
    case False
    obtain push u1 where f: "func ss from_v (fst ni) (snd ni) userdata = (push, u1)"
      by (cases "func ss from_v (fst ni) (snd ni) userdata") auto
    with False Cons.prems have ni: "fst ni < length visited"
      and r: "floodfill_visit func ss from_v ns
               (u1, visited[fst ni := True], if push then queue @ [fst ni] else queue)
              = Some (userdata', visited', queue')"
      by (simp_all split: if_splits)
    from Cons.IH [OF r] unvisited_update [OF ni False] show ?thesis by (simp split: if_splits)
  qed
qed

text \<open>Modelled from the spec: the traversal loop of \<^verbatim>\<open>SCULPT_floodfill_execute\<close>, a
  first-in first-out queue of discovered vertices.\<close>

function floodfill_execute ::
  "(SculptSession \<Rightarrow> nat \<Rightarrow> nat \<Rightarrow> bool \<Rightarrow> 'd \<Rightarrow> bool \<times> 'd) \<Rightarrow> SculptSession
   \<Rightarrow> 'd \<Rightarrow> bool list \<Rightarrow> nat list \<Rightarrow> 'd option"
where
  "floodfill_execute func ss userdata visited [] = Some userdata"
| "floodfill_execute func ss userdata visited (from_v # queue) =
     (case floodfill_visit func ss from_v (vert_neighbors ss from_v) (userdata, visited, queue) of
        None \<Rightarrow> None
      | Some (userdata', visited', queue') \<Rightarrow> floodfill_execute func ss userdata' visited' queue')"
  by pat_completeness auto
termination
proof (relation "measure (\<lambda>(func, ss, userdata, visited, queue). 2 * unvisited visited + length queue)",
    goal_cases)
  case 1
  show ?case by simp
next
  case (2 func ss userdata visited from_v queue st userdata' rest visited' queue')
  then have "floodfill_visit func ss from_v (vert_neighbors ss from_v) (userdata, visited, queue)
      = Some (userdata', visited', queue')" by simp
  from floodfill_visit_measure [OF this] show ?case by simp
qed

declare floodfill_execute.simps [simp del]

text \<open>
  Modelled from the spec: \<^verbatim>\<open>SCULPT_floodfill_add_initial_with_symmetry\<close>, whose source is
  not among the files. The origin of every valid symmetry iteration (the vertex itself for
  iteration 0, the vertex nearest to the flipped position otherwise) starts the traversal,
  and an iteration without a nearest vertex contributes nothing.
\<close>

function floodfill_add_initial_with_symmetry ::
  "SculptSession \<Rightarrow> int \<Rightarrow> nat \<Rightarrow> nat \<Rightarrow> bool list \<times> nat list \<Rightarrow> (bool list \<times> nat list) option"
where
  "floodfill_add_initial_with_symmetry ss vertex symm symm_it st =
     (if symm_it \<le> symm then
        (if \<not> symmetry_iteration_valid ss symm_it symm
         then floodfill_add_initial_with_symmetry ss vertex symm (symm_it + 1) st
         else
           (let v = symm_origin ss vertex symm_it in
            if v \<noteq> - 1 then
              (case push_boundary [nat v] st of
                 None \<Rightarrow> None
               | Some st' \<Rightarrow> floodfill_add_initial_with_symmetry ss vertex symm (symm_it + 1) st')
            else floodfill_add_initial_with_symmetry ss vertex symm (symm_it + 1) st))
      else Some st)"
  by pat_completeness auto
termination
  by (relation "measure (\<lambda>(ss, vertex, symm, symm_it, st). symm + 1 - symm_it)") auto

declare floodfill_add_initial_with_symmetry.simps [simp del]

subsection \<open>Topological falloff\<close>

definition mask_expand_topology_floodfill_cb ::
  "SculptSession \<Rightarrow> nat \<Rightarrow> nat \<Rightarrow> bool \<Rightarrow> ExpandFloodFillData \<Rightarrow> bool \<times> ExpandFloodFillData" where
  "mask_expand_topology_floodfill_cb ss from_v to_v is_duplicate data =
     (if \<not> is_duplicate then
        (let to_it = add_one_f (fd_dists data ! from_v)
         in (True, data\<lparr>fd_dists := (fd_dists data)[to_v := to_it]\<rparr>))
      else (True, data\<lparr>fd_dists := (fd_dists data)[to_v := fd_dists data ! from_v]\<rparr>))"

text \<open>The fields of \<^verbatim>\<open>fdata\<close> that the source leaves uninitialised are never read by the
  topology visitor; they hold fixed values here.\<close>

definition sculpt_expand_topology_falloff_create :: "SculptSession \<Rightarrow> int \<Rightarrow> real list option" where
  "sculpt_expand_topology_falloff_create ss vertex =
     (let dists0 = replicate (totvert ss) 0;
          fdata = \<lparr>fd_original_normal = (0, 0, 0), fd_edge_sensitivity = 0,
                   fd_dists = dists0, fd_edge_factor = []\<rparr>
      in case floodfill_add_initial_with_symmetry ss vertex (mesh_symmetry ss) 0
                (replicate (totvert ss) False, []) of
           None \<Rightarrow> None
         | Some (visited, queue) \<Rightarrow>
             map_option fd_dists
               (floodfill_execute mask_expand_topology_floodfill_cb ss fdata visited queue))"

definition no_duplicates :: "SculptSession \<Rightarrow> bool" where
  "no_duplicates ss = (\<forall>v. \<forall>ni \<in> set (vert_neighbors ss v). \<not> snd ni)"

text \<open>The origins of the valid symmetry iterations from \<open>from\<close> on.\<close>

definition origin_set :: "SculptSession \<Rightarrow> int \<Rightarrow> nat \<Rightarrow> nat set" where
  "origin_set ss vertex from =
     {nat (symm_origin ss vertex k) | k. from \<le> k \<and> k \<le> mesh_symmetry ss
        \<and> symmetry_iteration_valid ss k (mesh_symmetry ss) \<and> symm_origin ss vertex k \<noteq> - 1}"

definition origins_resolved :: "SculptSession \<Rightarrow> int \<Rightarrow> bool" where
  "origins_resolved ss vertex =
     (\<forall>k \<le> mesh_symmetry ss. symmetry_iteration_valid ss k (mesh_symmetry ss) \<longrightarrow>
        symm_origin ss vertex k = - 1
        \<or> (0 \<le> symm_origin ss vertex k \<and> nat (symm_origin ss vertex k) < totvert ss))"

text \<open>The seam-aware path length of the claim: a step along a duplicate entry costs
  nothing, any other step costs one.\<close>

inductive seam_hops :: "SculptSession \<Rightarrow> nat set \<Rightarrow> nat \<Rightarrow> nat \<Rightarrow> bool" for ss S where
  seam_seed: "s \<in> S \<Longrightarrow> seam_hops ss S 0 s"
| seam_step: "seam_hops ss S k w \<Longrightarrow> (u, False) \<in> set (vert_neighbors ss w)
              \<Longrightarrow> seam_hops ss S (Suc k) u"
| seam_duplicate: "seam_hops ss S k w \<Longrightarrow> (u, True) \<in> set (vert_neighbors ss w)
              \<Longrightarrow> seam_hops ss S k u"

definition seam_distance :: "SculptSession \<Rightarrow> nat set \<Rightarrow> nat \<Rightarrow> nat" where
  "seam_distance ss S u = (LEAST k. seam_hops ss S k u)"

lemma vertex_neighbors_iff:
  "u \<in> set (vertex_neighbors ss w) \<longleftrightarrow> (u, False) \<in> set (vert_neighbors ss w)"
  by (force simp: vertex_neighbors_def)

lemma seam_hops_no_duplicates:
  assumes "no_duplicates ss"
  shows "seam_hops ss S k u = hops ss S k u"
proof
  assume "seam_hops ss S k u"
  then show "hops ss S k u"
  proof (induction rule: seam_hops.induct)
    case (seam_seed s)
    then show ?case by (rule hops_seed)
  next
    case (seam_step k w u)
    then show ?case by (intro hops_step [of ss S k w]) (simp_all add: vertex_neighbors_iff)
  next
    case (seam_duplicate k w u)
    with assms show ?case unfolding no_duplicates_def by fastforce
  qed
next
  assume "hops ss S k u"
  then show "seam_hops ss S k u"
  proof (induction rule: hops.induct)
    case (hops_seed s)
    then show ?case by (rule seam_seed)
  next
    case (hops_step k w u)
    then show ?case by (intro seam_step [of ss S k w]) (simp_all add: vertex_neighbors_iff)
  qed
qed

lemma floodfill_add_initial_result:
  "symm = mesh_symmetry ss \<Longrightarrow> origins_resolved ss vertex \<Longrightarrow> length visited = totvert ss \<Longrightarrow>
   \<exists>visited' queue'.
     floodfill_add_initial_with_symmetry ss vertex symm symm_it (visited, queue) = Some (visited', queue')
     \<and> length visited' = totvert ss
     \<and> set queue' = set queue \<union> origin_set ss vertex symm_it
     \<and> (\<forall>u < totvert ss. visited' ! u = (visited ! u \<or> u \<in> origin_set ss vertex symm_it))"
proof (induction ss vertex symm symm_it "(visited, queue)" arbitrary: visited queue
    rule: floodfill_add_initial_with_symmetry.induct)
  case (1 ss vertex symm symm_it)
  let ?n = "totvert ss"
  let ?v = "symm_origin ss vertex symm_it"
  show ?case
  proof (cases "symm_it \<le> symm")
    case False
    with "1.prems"(1) have "origin_set ss vertex symm_it = {}"
      by (auto simp: origin_set_def)
    with False "1.prems"(3) show ?thesis
      by (subst floodfill_add_initial_with_symmetry.simps) simp
  next
    case le: True
    have from_it: "(symm_it \<le> k) = (k = symm_it \<or> symm_it + 1 \<le> k)" for k by auto
    show ?thesis
    proof (cases "symmetry_iteration_valid ss symm_it symm \<and> ?v \<noteq> - 1")
      case False
      with "1.prems"(1) have same: "origin_set ss vertex symm_it = origin_set ss vertex (symm_it + 1)"
        unfolding origin_set_def by (subst from_it) auto
      from le False have "floodfill_add_initial_with_symmetry ss vertex symm symm_it (visited, queue)
          = floodfill_add_initial_with_symmetry ss vertex symm (symm_it + 1) (visited, queue)"
        by (subst floodfill_add_initial_with_symmetry.simps) (auto simp: Let_def)
      moreover have "\<exists>visited' queue'.
          floodfill_add_initial_with_symmetry ss vertex symm (symm_it + 1) (visited, queue)
            = Some (visited', queue')
          \<and> length visited' = ?n
          \<and> set queue' = set queue \<union> origin_set ss vertex (symm_it + 1)
          \<and> (\<forall>u < ?n. visited' ! u = (visited ! u \<or> u \<in> origin_set ss vertex (symm_it + 1)))"
      proof (cases "symmetry_iteration_valid ss symm_it symm")
        case False
        with le "1.prems" show ?thesis by (intro "1.hyps"(1)) simp_all
      next
        case True
        with False have "?v = - 1" by simp
        with le True "1.prems" show ?thesis by (intro "1.hyps"(3) [OF _ _ refl]) simp_all
      qed
      ultimately show ?thesis using same by simp
    next
      case ok: True
      with le "1.prems"(1,2) have vr: "0 \<le> ?v" "nat ?v < ?n"
        unfolding origins_resolved_def by auto
      from ok "1.prems"(1) le
      have seeds: "origin_set ss vertex symm_it = {nat ?v} \<union> origin_set ss vertex (symm_it + 1)"
        unfolding origin_set_def by (subst from_it) auto
      from vr "1.prems"(3) have "\<forall>u \<in> set [nat ?v]. u < length visited" by simp
      from push_boundary_result [OF this, of queue] obtain v1 where
        p: "push_boundary [nat ?v] (visited, queue) = Some (v1, queue @ [nat ?v])"
          "length v1 = length visited"
          "\<forall>u < length visited. v1 ! u = (visited ! u \<or> u \<in> set [nat ?v])" by blast
      from "1.prems"(3) p(2) have len1: "length v1 = ?n" by simp
      from ok have valid: "\<not> \<not> symmetry_iteration_valid ss symm_it symm" and ne: "?v \<noteq> - 1"
        by simp_all
      from "1.hyps"(2) [OF le valid refl ne p(1) "1.prems"(1,2) len1]
      obtain visited' queue' where r:
        "floodfill_add_initial_with_symmetry ss vertex symm (symm_it + 1) (v1, queue @ [nat ?v])
           = Some (visited', queue')"
        "length visited' = ?n"
        "set queue' = set (queue @ [nat ?v]) \<union> origin_set ss vertex (symm_it + 1)"
        "\<forall>u < ?n. visited' ! u = (v1 ! u \<or> u \<in> origin_set ss vertex (symm_it + 1))"
        by auto
      from le ok p(1) have "floodfill_add_initial_with_symmetry ss vertex symm symm_it (visited, queue)
          = floodfill_add_initial_with_symmetry ss vertex symm (symm_it + 1) (v1, queue @ [nat ?v])"
        by (subst floodfill_add_initial_with_symmetry.simps) (simp add: Let_def)
      moreover have "set queue' = set queue \<union> origin_set ss vertex symm_it"
        using r(3) seeds by auto
      moreover have "\<forall>u < ?n. visited' ! u = (visited ! u \<or> u \<in> origin_set ss vertex symm_it)"
        using r(4) p(3) seeds "1.prems"(3) by auto
      ultimately show ?thesis using r(1,2) by simp
    qed
  qed
qed

lemma bfs_inv_initial:
  assumes len: "length visited = totvert ss"
    and q: "set queue = S"
    and vis: "\<forall>u < totvert ss. visited ! u = (u \<in> S)"
    and sn: "\<forall>s \<in> S. s < totvert ss"
  shows "bfs_inv ss S (replicate (totvert ss) 0, visited, queue)"
proof -
  let ?n = "totvert ss"
  have hc0: "hop_count ss S u = 0" "reachable ss S u" if "u \<in> S" for u
    using hop_count_seed [OF that, of ss] by simp_all
  show ?thesis
    unfolding bfs_inv_def prod.case
  proof (intro conjI)
    show "length (replicate ?n (0::real)) = ?n" by simp
    show "length visited = ?n" by (rule len)
    show "\<forall>u < ?n. visited ! u \<longrightarrow>
           reachable ss S u \<and> replicate ?n 0 ! u = float_hops (hop_count ss S u)"
      using vis hc0 by (simp add: float_hops_0)
    show "sorted_wrt (\<lambda>a b. hop_count ss S a \<le> hop_count ss S b) queue"
    proof -
      have "hop_count ss S a \<le> hop_count ss S b" if "a \<in> set queue" "b \<in> set queue" for a b
        using that q hc0(1) by simp
      then show ?thesis by (simp add: sorted_wrt_iff_nth_less)
    qed
    show "\<forall>a \<in> set queue. a < ?n \<and> visited ! a
           \<and> hop_count ss S a \<le> hop_count ss S (hd queue) + 1"
      using q vis sn hc0(1) by simp
    show "queue \<noteq> [] \<longrightarrow> (\<forall>w < ?n. reachable ss S w
           \<and> hop_count ss S w \<le> hop_count ss S (hd queue) \<longrightarrow> visited ! w)"
    proof (intro impI allI)
      fix w assume ne: "queue \<noteq> []" and w: "w < ?n"
        "reachable ss S w \<and> hop_count ss S w \<le> hop_count ss S (hd queue)"
      from ne q have "hd queue \<in> S" using hd_in_set by blast
      with w hc0(1) have "hop_count ss S w = 0" by simp
      with w have "hops ss S 0 w" using hop_count_hops [of ss S w] by simp
      then have "w \<in> S" by (rule hops_zero)
      with vis w(1) show "visited ! w" by simp
    qed
    show "\<forall>w < ?n. visited ! w \<and> w \<notin> set queue
           \<longrightarrow> (\<forall>u \<in> set (vertex_neighbors ss w). visited ! u)"
      using q vis by simp
    show "\<forall>s \<in> S. s < ?n \<and> visited ! s" using vis sn by simp
  qed
qed

text \<open>
  The mesh in which every entry of a neighbour list, duplicate or not, counts as a
  neighbour, and the hop count in it: the length of the shortest path when a step along a
  duplicate entry costs one like any other.
\<close>

definition all_entries :: "SculptSession \<Rightarrow> SculptSession" where
  "all_entries ss = ss\<lparr>vert_neighbors := (\<lambda>v. map (\<lambda>ni. (fst ni, False)) (vert_neighbors ss v))\<rparr>"

definition entry_distance :: "SculptSession \<Rightarrow> nat set \<Rightarrow> nat \<Rightarrow> nat" where
  "entry_distance ss S u = hop_count (all_entries ss) S u"

definition wf_entries :: "SculptSession \<Rightarrow> bool" where
  "wf_entries ss = (\<forall>v < totvert ss. \<forall>ni \<in> set (vert_neighbors ss v). fst ni < totvert ss)"

lemma all_entries_neighbors:
  "vertex_neighbors (all_entries ss) v = map fst (vert_neighbors ss v)"
  by (simp add: all_entries_def vertex_neighbors_def filter_map comp_def)

lemma all_entries_totvert: "totvert (all_entries ss) = totvert ss"
  by (simp add: all_entries_def)

lemma wf_entries_all: "wf_entries ss \<Longrightarrow> wf_neighbors (all_entries ss)"
  unfolding wf_entries_def wf_neighbors_def all_entries_neighbors all_entries_totvert by auto

lemma seam_hops_entries: "seam_hops ss S k u \<Longrightarrow> reachable (all_entries ss) S u"
proof (induction rule: seam_hops.induct)
  case (seam_seed s)
  then show ?case unfolding reachable_def by (blast intro: hops_seed)
next
  case (seam_step k w u)
  then obtain j where "hops (all_entries ss) S j w" unfolding reachable_def by blast
  moreover from seam_step(2) have "u \<in> set (vertex_neighbors (all_entries ss) w)"
    unfolding all_entries_neighbors by force
  ultimately show ?case unfolding reachable_def by (blast intro: hops_step)
next
  case (seam_duplicate k w u)
  then obtain j where "hops (all_entries ss) S j w" unfolding reachable_def by blast
  moreover from seam_duplicate(2) have "u \<in> set (vertex_neighbors (all_entries ss) w)"
    unfolding all_entries_neighbors by force
  ultimately show ?case unfolding reachable_def by (blast intro: hops_step)
qed

lemma hops_same_neighbors:
  assumes "\<And>v. vertex_neighbors a v = vertex_neighbors b v"
  shows "hops a S k u \<Longrightarrow> hops b S k u"
proof (induction rule: hops.induct)
  case (hops_seed s)
  then show ?case by (rule hops.hops_seed)
next
  case (hops_step k w u)
  then show ?case using assms by (intro hops.hops_step [of b S k w]) simp_all
qed

lemma entry_distance_no_duplicates:
  assumes "no_duplicates ss"
  shows "entry_distance ss S u = seam_distance ss S u"
proof -
  have nb: "vertex_neighbors (all_entries ss) v = vertex_neighbors ss v" for v
    using assms unfolding all_entries_neighbors no_duplicates_def
    by (simp add: vertex_neighbors_def filter_id_conv)
  have "hops (all_entries ss) S k u = hops ss S k u" for k
    using hops_same_neighbors [of "all_entries ss" ss S k u]
      hops_same_neighbors [of ss "all_entries ss" S k u] nb by auto
  then show ?thesis
    unfolding entry_distance_def hop_count_def seam_distance_def
    using seam_hops_no_duplicates [OF assms, of S] by simp
qed

text \<open>
  The traversal of the topology visitor runs in step with the breadth-first search over all
  entries: both mark and queue the same vertices. The search over all entries adds one at
  every discovery, the visitor adds one or nothing; so every marked vertex holds the
  seam-aware length of a path from the origins, and no more than the search over all
  entries gives it.
\<close>

definition topology_sim ::
  "SculptSession \<Rightarrow> nat set \<Rightarrow> real list \<Rightarrow> real list \<Rightarrow> bool list \<Rightarrow> bool" where
  "topology_sim ss S dists ghost visited =
     (length dists = totvert ss \<and> length ghost = totvert ss \<and> length visited = totvert ss
      \<and> (\<forall>u < totvert ss. visited ! u \<longrightarrow>
            (\<exists>k. seam_hops ss S k u \<and> dists ! u = float_hops k \<and> dists ! u \<le> ghost ! u)))"

lemma topology_simD:
  assumes "topology_sim ss S dists ghost visited"
  shows "length dists = totvert ss" "length ghost = totvert ss" "length visited = totvert ss"
    and "\<And>u. u < totvert ss \<Longrightarrow> visited ! u \<Longrightarrow>
           \<exists>k. seam_hops ss S k u \<and> dists ! u = float_hops k \<and> dists ! u \<le> ghost ! u"
  using assms unfolding topology_sim_def by blast+

lemma floodfill_visit_sim:
  assumes "\<forall>ni \<in> set ns. fst ni < totvert ss"
    and "set ns \<subseteq> set (vert_neighbors ss from_v)"
    and "from_v < totvert ss" "visited ! from_v"
    and "topology_sim ss S dists ghost visited"
    and "\<forall>a \<in> set queue. a < totvert ss \<and> visited ! a"
    and "bfs_visit from_v (map fst ns) (ghost, visited, queue) = Some (ghost', visited', queue')"
  shows "\<exists>dists'. floodfill_visit mask_expand_topology_floodfill_cb ss from_v ns
             (data\<lparr>fd_dists := dists\<rparr>, visited, queue)
           = Some (data\<lparr>fd_dists := dists'\<rparr>, visited', queue')
         \<and> topology_sim ss S dists' ghost' visited'
         \<and> (\<forall>a \<in> set queue'. a < totvert ss \<and> visited' ! a)"
  using assms
proof (induction ns arbitrary: dists ghost visited queue)
  case Nil
  then show ?case by auto
next
  case (Cons ni ns)
  let ?n = "totvert ss"
  obtain to_v dup where ni: "ni = (to_v, dup)" by (cases ni) auto
  note sim = topology_simD [OF Cons.prems(5)]
  from Cons.prems(1) ni have to: "to_v < ?n" and ns: "\<forall>ni \<in> set ns. fst ni < ?n" by simp_all
  from Cons.prems(2) ni have entry: "(to_v, dup) \<in> set (vert_neighbors ss from_v)"
    and sub: "set ns \<subseteq> set (vert_neighbors ss from_v)" by simp_all
  note fv = Cons.prems(3,4)
  show ?case
  proof (cases "visited ! to_v")
    case True
    with Cons.prems(7) ni to fv sim(1,2,3)
    have b: "bfs_visit from_v (map fst ns) (ghost, visited, queue) = Some (ghost', visited', queue')"
      by simp
    from Cons.IH [OF ns sub fv Cons.prems(5,6) b] obtain dists' where
      r: "floodfill_visit mask_expand_topology_floodfill_cb ss from_v ns
             (data\<lparr>fd_dists := dists\<rparr>, visited, queue)
           = Some (data\<lparr>fd_dists := dists'\<rparr>, visited', queue')"
        "topology_sim ss S dists' ghost' visited'"
        "\<forall>a \<in> set queue'. a < ?n \<and> visited' ! a"
      by (elim exE conjE)
    from r(1) True to sim(3) ni
    have "floodfill_visit mask_expand_topology_floodfill_cb ss from_v (ni # ns)
             (data\<lparr>fd_dists := dists\<rparr>, visited, queue)
           = Some (data\<lparr>fd_dists := dists'\<rparr>, visited', queue')"
      by simp
    with r(2,3) show ?thesis by blast
  next
    case False
    let ?g1 = "ghost[to_v := add_one_f (ghost ! from_v)]"
    let ?v1 = "visited[to_v := True]"
    let ?q1 = "queue @ [to_v]"
    let ?d1 = "dists[to_v := (if dup then dists ! from_v else add_one_f (dists ! from_v))]"
    from False fv have ne: "to_v \<noteq> from_v" by auto
    from Cons.prems(7) ni to fv sim(1,2,3) False
    have b: "bfs_visit from_v (map fst ns) (?g1, ?v1, ?q1) = Some (ghost', visited', queue')"
      by simp
    from sim(4) [OF fv] obtain k where
      k: "seam_hops ss S k from_v" "dists ! from_v = float_hops k" "dists ! from_v \<le> ghost ! from_v"
      by (elim exE conjE)
    have new: "\<exists>j. seam_hops ss S j to_v \<and> ?d1 ! to_v = float_hops j \<and> ?d1 ! to_v \<le> ?g1 ! to_v"
    proof (cases dup)
      case True
      from k(1) have "seam_hops ss S k to_v"
      proof (rule seam_duplicate)
        from entry True show "(to_v, True) \<in> set (vert_neighbors ss from_v)" by simp
      qed
      moreover from True to sim(1) k(2) have "?d1 ! to_v = float_hops k" by simp
      moreover from k(3) add_one_f_ge [of "ghost ! from_v"] True to sim(1,2)
      have "?d1 ! to_v \<le> ?g1 ! to_v" by simp
      ultimately show ?thesis by (intro exI [of _ k] conjI)
    next
      case nd: False
      from k(1) have "seam_hops ss S (Suc k) to_v"
      proof (rule seam_step)
        from entry nd show "(to_v, False) \<in> set (vert_neighbors ss from_v)" by simp
      qed
      moreover from nd to sim(1) k(2) have "?d1 ! to_v = float_hops (Suc k)"
        by (simp add: add_one_f_float_hops)
      moreover from k(2,3) have "float_hops (Suc k) \<le> add_one_f (ghost ! from_v)"
        by (intro float_hops_add_one_f) simp
      with nd to sim(1,2) k(2) have "?d1 ! to_v \<le> ?g1 ! to_v"
        by (simp add: add_one_f_float_hops)
      ultimately show ?thesis by (intro exI [of _ "Suc k"] conjI)
    qed
    have sim1: "topology_sim ss S ?d1 ?g1 ?v1"
      unfolding topology_sim_def
    proof (intro conjI allI impI)
      show "length ?d1 = ?n" "length ?g1 = ?n" "length ?v1 = ?n" using sim(1,2,3) by simp_all
      fix u assume u: "u < ?n" "?v1 ! u"
      show "\<exists>j. seam_hops ss S j u \<and> ?d1 ! u = float_hops j \<and> ?d1 ! u \<le> ?g1 ! u"
      proof (cases "u = to_v")
        case True
        with new show ?thesis by simp
      next
        case False
        with u sim(3) have "visited ! u" by simp
        from sim(4) [OF u(1) this] False show ?thesis by simp
      qed
    qed
    have fv1: "?v1 ! from_v" using fv ne by simp
    have q1: "\<forall>a \<in> set ?q1. a < ?n \<and> ?v1 ! a"
      using Cons.prems(6) to sim(3) by (auto simp: nth_list_update)
    from Cons.IH [OF ns sub fv(1) fv1 sim1 q1 b] obtain dists' where
      r: "floodfill_visit mask_expand_topology_floodfill_cb ss from_v ns
             (data\<lparr>fd_dists := ?d1\<rparr>, ?v1, ?q1)
           = Some (data\<lparr>fd_dists := dists'\<rparr>, visited', queue')"
        "topology_sim ss S dists' ghost' visited'"
        "\<forall>a \<in> set queue'. a < ?n \<and> visited' ! a"
      by (elim exE conjE)
    have cb: "mask_expand_topology_floodfill_cb ss from_v to_v dup (data\<lparr>fd_dists := dists\<rparr>)
        = (True, data\<lparr>fd_dists := ?d1\<rparr>)"
      by (simp add: mask_expand_topology_floodfill_cb_def)
    from r(1) False to sim(3) ni cb
    have "floodfill_visit mask_expand_topology_floodfill_cb ss from_v (ni # ns)
             (data\<lparr>fd_dists := dists\<rparr>, visited, queue)
           = Some (data\<lparr>fd_dists := dists'\<rparr>, visited', queue')"
      by simp
    with r(2,3) show ?thesis by blast
  qed
qed

lemma floodfill_execute_sim:
  assumes "func = mask_expand_topology_floodfill_cb" "wf_entries ss"
    and "topology_sim ss S (fd_dists data) ghost visited"
    and "\<forall>a \<in> set queue. a < totvert ss \<and> visited ! a"
    and "boundary_bfs (all_entries ss) ghost visited queue = Some (ghost', visited')"
  shows "\<exists>dists'. floodfill_execute func ss data visited queue = Some (data\<lparr>fd_dists := dists'\<rparr>)
           \<and> topology_sim ss S dists' ghost' visited'"
  using assms
proof (induction func ss data visited queue arbitrary: ghost rule: floodfill_execute.induct)
  case (1 func ss userdata visited)
  from "1.prems"(5) have "ghost' = ghost" "visited' = visited"
    by (simp_all add: boundary_bfs.simps)
  moreover have "floodfill_execute func ss userdata visited []
      = Some (userdata\<lparr>fd_dists := fd_dists userdata\<rparr>)"
    by (simp add: floodfill_execute.simps)
  ultimately show ?case using "1.prems"(3) by blast
next
  case (2 func ss userdata visited from_v queue)
  let ?n = "totvert ss"
  note f = "2.prems"(1)
  from "2.prems"(4) have fv: "from_v < ?n" "visited ! from_v"
    and q: "\<forall>a \<in> set queue. a < ?n \<and> visited ! a" by simp_all
  from "2.prems"(2) fv(1) have ns: "\<forall>ni \<in> set (vert_neighbors ss from_v). fst ni < ?n"
    unfolding wf_entries_def by blast
  from "2.prems"(5) obtain g1 v1 q1 where
    b: "bfs_visit from_v (map fst (vert_neighbors ss from_v)) (ghost, visited, queue) = Some (g1, v1, q1)"
    and rest: "boundary_bfs (all_entries ss) g1 v1 q1 = Some (ghost', visited')"
    by (auto simp: boundary_bfs.simps all_entries_neighbors split: option.splits)
  from floodfill_visit_sim [OF ns subset_refl fv "2.prems"(3) q b, of userdata]
  obtain d1 where
    v: "floodfill_visit mask_expand_topology_floodfill_cb ss from_v (vert_neighbors ss from_v)
             (userdata\<lparr>fd_dists := fd_dists userdata\<rparr>, visited, queue)
           = Some (userdata\<lparr>fd_dists := d1\<rparr>, v1, q1)"
      "topology_sim ss S d1 g1 v1" "\<forall>a \<in> set q1. a < ?n \<and> v1 ! a"
    by blast
  from v(1) f have fvis: "floodfill_visit func ss from_v (vert_neighbors ss from_v)
      (userdata, visited, queue) = Some (userdata\<lparr>fd_dists := d1\<rparr>, v1, q1)"
    by simp
  have "\<exists>dists'. floodfill_execute func ss (userdata\<lparr>fd_dists := d1\<rparr>) v1 q1
           = Some ((userdata\<lparr>fd_dists := d1\<rparr>)\<lparr>fd_dists := dists'\<rparr>)
         \<and> topology_sim ss S dists' ghost' visited'"
    using f "2.prems"(2) v(2,3) rest by (intro "2.IH" [OF fvis refl refl]) simp_all
  with fvis show ?case by (simp add: floodfill_execute.simps)
qed

text \<open>
  The values of the topological falloff on any mesh whose entries stay inside the mesh,
  with every origin resolved to a vertex of the mesh or to none. A vertex reachable from the
  origin set holds the seam-aware length of a path from the origins (as the float counts
  it), which lies between the shortest seam-aware distance and the distance that charges
  every entry as a hop.
\<close>

lemma topology_falloff_values:
  assumes "wf_entries ss" "origins_resolved ss vertex"
  shows "\<exists>vals. sculpt_expand_topology_falloff_create ss vertex = Some vals
     \<and> length vals = totvert ss
     \<and> (\<forall>u < totvert ss. (\<exists>k. seam_hops ss (origin_set ss vertex 0) k u) \<longrightarrow>
            (\<exists>k. seam_hops ss (origin_set ss vertex 0) k u \<and> vals ! u = float_hops k)
          \<and> float_hops (seam_distance ss (origin_set ss vertex 0) u) \<le> vals ! u
          \<and> vals ! u \<le> float_hops (entry_distance ss (origin_set ss vertex 0) u))"
proof -
  let ?n = "totvert ss"
  let ?S = "origin_set ss vertex 0"
  let ?gs = "all_entries ss"
  let ?fdata = "\<lparr>fd_original_normal = (0, 0, 0), fd_edge_sensitivity = 0,
                 fd_dists = replicate ?n 0, fd_edge_factor = []\<rparr>"
  from floodfill_add_initial_result [OF refl assms(2), of "replicate ?n False" 0 "[]"]
  obtain visited queue where s:
    "floodfill_add_initial_with_symmetry ss vertex (mesh_symmetry ss) 0 (replicate ?n False, [])
       = Some (visited, queue)"
    "length visited = ?n" "set queue = ?S" "\<forall>u < ?n. visited ! u = (u \<in> ?S)"
    by auto
  have sn: "\<forall>s \<in> ?S. s < ?n"
    using assms(2) unfolding origin_set_def origins_resolved_def by auto
  have inv: "bfs_inv ?gs ?S (replicate (totvert ?gs) 0, visited, queue)"
    using s(2,3,4) sn by (intro bfs_inv_initial) (simp_all add: all_entries_totvert)
  from boundary_bfs_correct [OF wf_entries_all [OF assms(1)] inv]
  obtain ghost' visited' where r:
    "boundary_bfs ?gs (replicate ?n 0) visited queue = Some (ghost', visited')"
    "\<forall>u < ?n. visited' ! u = reachable ?gs ?S u"
    "\<forall>u < ?n. reachable ?gs ?S u \<longrightarrow> ghost' ! u = float_hops (hop_count ?gs ?S u)"
    unfolding all_entries_totvert by blast
  have sim0: "topology_sim ss ?S (fd_dists ?fdata) (replicate ?n 0) visited"
    unfolding topology_sim_def
  proof (intro conjI allI impI)
    show "length (fd_dists ?fdata) = ?n" "length (replicate ?n (0::real)) = ?n" "length visited = ?n"
      using s(2) by simp_all
    fix u assume u: "u < ?n" "visited ! u"
    with s(4) have "seam_hops ss ?S 0 u" by (intro seam_seed) simp
    with u(1) show "\<exists>k. seam_hops ss ?S k u \<and> fd_dists ?fdata ! u = float_hops k
        \<and> fd_dists ?fdata ! u \<le> replicate ?n 0 ! u"
      by (intro exI [of _ 0]) (simp add: float_hops_0)
  qed
  have q: "\<forall>a \<in> set queue. a < ?n \<and> visited ! a" using s(3,4) sn by simp
  from floodfill_execute_sim [OF refl assms(1) sim0 q r(1)] obtain vals where
    e: "floodfill_execute mask_expand_topology_floodfill_cb ss ?fdata visited queue
          = Some (?fdata\<lparr>fd_dists := vals\<rparr>)"
    and sim: "topology_sim ss ?S vals ghost' visited'"
    by blast
  from s(1) e have res: "sculpt_expand_topology_falloff_create ss vertex = Some vals"
    by (simp add: sculpt_expand_topology_falloff_create_def)
  note simD = topology_simD [OF sim]
  have "(\<exists>k. seam_hops ss ?S k u \<and> vals ! u = float_hops k)
      \<and> float_hops (seam_distance ss ?S u) \<le> vals ! u
      \<and> vals ! u \<le> float_hops (entry_distance ss ?S u)"
    if u: "u < ?n" and reach: "\<exists>k. seam_hops ss ?S k u" for u
  proof -
    from reach have gr: "reachable ?gs ?S u" using seam_hops_entries by blast
    with r(2) u have "visited' ! u" by simp
    from simD(4) [OF u this] obtain k where
      k: "seam_hops ss ?S k u" "vals ! u = float_hops k" "vals ! u \<le> ghost' ! u" by blast
    from k(1) have "seam_distance ss ?S u \<le> k" unfolding seam_distance_def by (rule Least_le)
    then have "float_hops (seam_distance ss ?S u) \<le> vals ! u"
      unfolding k(2) by (rule float_hops_mono)
    moreover from r(3) u gr k(3) have "vals ! u \<le> float_hops (entry_distance ss ?S u)"
      by (simp add: entry_distance_def)
    ultimately show ?thesis using k(1,2) by blast
  qed
  with res simD(1) show ?thesis by blast
qed

lemma floodfill_add_initial_step_valid:
  "symm_it \<le> symm \<Longrightarrow> symmetry_iteration_valid ss symm_it symm \<Longrightarrow>
   floodfill_add_initial_with_symmetry ss vertex symm symm_it st =
     (if symm_origin ss vertex symm_it \<noteq> - 1 then
        (case push_boundary [nat (symm_origin ss vertex symm_it)] st of
           None \<Rightarrow> None
         | Some st' \<Rightarrow> floodfill_add_initial_with_symmetry ss vertex symm (symm_it + 1) st')
      else floodfill_add_initial_with_symmetry ss vertex symm (symm_it + 1) st)"
  by (subst floodfill_add_initial_with_symmetry.simps) (simp add: Let_def)

lemma floodfill_add_initial_step_skip:
  "symm_it \<le> symm \<Longrightarrow> \<not> symmetry_iteration_valid ss symm_it symm \<Longrightarrow>
   floodfill_add_initial_with_symmetry ss vertex symm symm_it st =
     floodfill_add_initial_with_symmetry ss vertex symm (symm_it + 1) st"
  by (subst floodfill_add_initial_with_symmetry.simps) simp

lemma floodfill_add_initial_stop:
  "\<not> symm_it \<le> symm \<Longrightarrow> floodfill_add_initial_with_symmetry ss vertex symm symm_it st = Some st"
  by (subst floodfill_add_initial_with_symmetry.simps) simp

lemmas floodfill_eval =
  floodfill_add_initial_step_valid floodfill_add_initial_step_skip floodfill_add_initial_stop
  floodfill_execute.simps symm_origin_def

lemma path_mesh_topology:
  "sculpt_expand_topology_falloff_create path_mesh 1 = Some [1, 0, 1, 0]"
  by (simp add: sculpt_expand_topology_falloff_create_def path_mesh_def floodfill_eval
      mask_expand_topology_floodfill_cb_def numeral_eq_Suc add_one_f_def)

text \<open>
  The seam mesh: the vertices 0 and 1 lie at one position and are duplicates of each
  other, and so are 3 and 4; vertex 2 is a neighbour of 0 and 3, and 1 is a neighbour of
  4. The seam-aware path 0, 1, 4, 3 has length 1, the path 0, 2, 3 has length 2. In
  \<open>seam_mesh_rev\<close> every neighbour list is in the opposite order.
\<close>

definition seam_mesh :: SculptSession where
  "seam_mesh =
     \<lparr>totvert = 5, totfaces = 0,
      vert_co = (\<lambda>v. if v < 2 then (0, 0, 0) else if v = 2 then (0, 1, 0) else (1, 0, 0)),
      vert_no = (\<lambda>v. (0, 0, 1)),
      vert_neighbors = (\<lambda>v. if v = 0 then [(2, False), (1, True)]
                             else if v = 1 then [(4, False), (0, True)]
                             else if v = 2 then [(0, False), (3, False)]
                             else if v = 3 then [(2, False), (4, True)]
                             else [(1, False), (3, True)]),
      mesh_symmetry = 0,
      symmetry_iteration_valid = (\<lambda>i symm. True),
      flip_v3 = (\<lambda>co symm. co),
      nearest_vertex = (\<lambda>co. - 1),
      boundary_data_init = (\<lambda>v. Some [])\<rparr>"

definition seam_mesh_rev :: SculptSession where
  "seam_mesh_rev = seam_mesh\<lparr>vert_neighbors := (\<lambda>v. rev (vert_neighbors seam_mesh v))\<rparr>"

lemma seam_mesh_topology:
  "sculpt_expand_topology_falloff_create seam_mesh 0 = Some [0, 0, 1, 2, 1]"
  by (simp add: sculpt_expand_topology_falloff_create_def seam_mesh_def floodfill_eval
      mask_expand_topology_floodfill_cb_def numeral_eq_Suc add_one_f_def)

lemma seam_mesh_rev_topology:
  "sculpt_expand_topology_falloff_create seam_mesh_rev 0 = Some [0, 0, 1, 2, 1]"
  by (simp add: sculpt_expand_topology_falloff_create_def seam_mesh_rev_def seam_mesh_def
      floodfill_eval mask_expand_topology_floodfill_cb_def numeral_eq_Suc add_one_f_def)

lemma seam_mesh_hops: "seam_hops seam_mesh {0} 1 3"
proof -
  have "seam_hops seam_mesh {0} 0 1"
    using seam_duplicate [OF seam_seed [of 0 "{0}" seam_mesh], of 1] by (simp add: seam_mesh_def)
  then have "seam_hops seam_mesh {0} 1 4"
    using seam_step [of seam_mesh "{0}" 0 1 4] by (simp add: seam_mesh_def)
  then show ?thesis
    using seam_duplicate [of seam_mesh "{0}" 1 4 3] by (simp add: seam_mesh_def)
qed

lemma seam_mesh_rev_hops: "seam_hops seam_mesh_rev {0} 1 3"
proof -
  have "seam_hops seam_mesh_rev {0} 0 1"
    using seam_duplicate [OF seam_seed [of 0 "{0}" seam_mesh_rev], of 1]
    by (simp add: seam_mesh_rev_def seam_mesh_def)
  then have "seam_hops seam_mesh_rev {0} 1 4"
    using seam_step [of seam_mesh_rev "{0}" 0 1 4] by (simp add: seam_mesh_rev_def seam_mesh_def)
  then show ?thesis
    using seam_duplicate [of seam_mesh_rev "{0}" 1 4 3]
    by (simp add: seam_mesh_rev_def seam_mesh_def)
qed

lemma long_path_topology:
  "\<exists>vals. sculpt_expand_topology_falloff_create long_path_mesh 0 = Some vals
     \<and> vals ! 33554432 = 16777216"
proof -
  have nd: "no_duplicates long_path_mesh"
    unfolding no_duplicates_def by (simp add: long_path_mesh_def)
  have wf: "wf_entries long_path_mesh"
    unfolding wf_entries_def by (auto simp: long_path_mesh_def)
  have res: "origins_resolved long_path_mesh 0"
    unfolding origins_resolved_def by (simp add: long_path_mesh_def symm_origin_def)
  have seeds: "origin_set long_path_mesh 0 0 = {0}"
    unfolding origin_set_def by (auto simp: long_path_mesh_def symm_origin_def)
  have hop: "seam_hops long_path_mesh {0} 33554432 33554432"
    using long_path_hops [of 33554432] seam_hops_no_duplicates [OF nd] by simp
  have "entry_distance long_path_mesh {0} 33554432 = 33554432"
    using entry_distance_no_duplicates [OF nd, of "{0}" 33554432]
      seam_hops_no_duplicates [OF nd, of "{0}"] long_path_hop_count(2) [of 33554432]
    by (simp add: seam_distance_def hop_count_def)
  moreover from topology_falloff_values [OF wf res] obtain vals where
    d: "sculpt_expand_topology_falloff_create long_path_mesh 0 = Some vals"
    and v: "\<forall>u < totvert long_path_mesh.
         (\<exists>k. seam_hops long_path_mesh (origin_set long_path_mesh 0 0) k u) \<longrightarrow>
            (\<exists>k. seam_hops long_path_mesh (origin_set long_path_mesh 0 0) k u \<and> vals ! u = float_hops k)
          \<and> float_hops (seam_distance long_path_mesh (origin_set long_path_mesh 0 0) u) \<le> vals ! u
          \<and> vals ! u \<le> float_hops (entry_distance long_path_mesh (origin_set long_path_mesh 0 0) u)"
    by blast
  moreover have "(33554432::nat) < totvert long_path_mesh" by (simp add: long_path_mesh_def)
  ultimately have "float_hops (seam_distance long_path_mesh {0} 33554432) \<le> vals ! 33554432"
    "vals ! 33554432 \<le> float_hops 33554432"
    using hop unfolding seeds by auto
  moreover have "seam_distance long_path_mesh {0} 33554432 = 33554432"
    using seam_hops_no_duplicates [OF nd, of "{0}"] long_path_hop_count(2) [of 33554432]
    by (simp add: seam_distance_def hop_count_def)
  ultimately have "vals ! 33554432 = 16777216" by (simp add: float_hops_def)
  with d show ?thesis by blast
qed

text \<open>
  Claim C3, as amended. On every mesh whose neighbour entries are vertices of the mesh, with
  every origin resolved to a vertex of the mesh or to none, the topological falloff returns
  one value per vertex. A vertex reachable from the origin set holds the seam-aware length
  of a path from the origin set, counted as the float counts it (exact up to \<open>2^24\<close>,
  16777216 beyond). That value is at least the shortest seam-aware distance and at most the
  distance that charges a duplicate entry as a hop; on a mesh without duplicate entries
  it is the shortest hop count.
\<close>

theorem topology_falloff_hop_count:
  assumes "wf_entries ss" "origins_resolved ss vertex"
  shows "\<exists>vals. sculpt_expand_topology_falloff_create ss vertex = Some vals
     \<and> length vals = totvert ss
     \<and> (\<forall>u < totvert ss. (\<exists>k. seam_hops ss (origin_set ss vertex 0) k u) \<longrightarrow>
            (\<exists>k. seam_hops ss (origin_set ss vertex 0) k u \<and> vals ! u = float_hops k)
          \<and> float_hops (seam_distance ss (origin_set ss vertex 0) u) \<le> vals ! u
          \<and> vals ! u \<le> float_hops (entry_distance ss (origin_set ss vertex 0) u)
          \<and> (no_duplicates ss \<longrightarrow>
               vals ! u = float_hops (seam_distance ss (origin_set ss vertex 0) u)))"
proof -
  let ?S = "origin_set ss vertex 0"
  from topology_falloff_values [OF assms] obtain vals where
    d: "sculpt_expand_topology_falloff_create ss vertex = Some vals"
    and len: "length vals = totvert ss"
    and v: "\<forall>u < totvert ss. (\<exists>k. seam_hops ss ?S k u) \<longrightarrow>
            (\<exists>k. seam_hops ss ?S k u \<and> vals ! u = float_hops k)
          \<and> float_hops (seam_distance ss ?S u) \<le> vals ! u
          \<and> vals ! u \<le> float_hops (entry_distance ss ?S u)"
    by blast
  have "(\<exists>k. seam_hops ss ?S k u \<and> vals ! u = float_hops k)
          \<and> float_hops (seam_distance ss ?S u) \<le> vals ! u
          \<and> vals ! u \<le> float_hops (entry_distance ss ?S u)
          \<and> (no_duplicates ss \<longrightarrow> vals ! u = float_hops (seam_distance ss ?S u))"
    if u: "u < totvert ss" and reach: "\<exists>k. seam_hops ss ?S k u" for u
  proof -
    from v u reach have b: "\<exists>k. seam_hops ss ?S k u \<and> vals ! u = float_hops k"
      "float_hops (seam_distance ss ?S u) \<le> vals ! u"
      "vals ! u \<le> float_hops (entry_distance ss ?S u)" by blast+
    have "vals ! u = float_hops (seam_distance ss ?S u)" if "no_duplicates ss"
      using b(2,3) entry_distance_no_duplicates [OF that, of ?S u] by simp
    with b show ?thesis by blast
  qed
  with d len show ?thesis by blast
qed

theorem topology_falloff_hop_count_witness:
  "sculpt_expand_topology_falloff_create path_mesh 1 = Some [1, 0, 1, 0]
   \<and> origin_set path_mesh 1 0 = {1}
   \<and> seam_hops path_mesh {1} 1 2
   \<and> seam_distance path_mesh {1} 2 = 1
   \<and> sculpt_expand_topology_falloff_create seam_mesh 0 = Some [0, 0, 1, 2, 1]
   \<and> origin_set seam_mesh 0 0 = {0}
   \<and> seam_hops seam_mesh {0} 1 3
   \<and> float_hops (seam_distance seam_mesh {0} 3) \<le> 2
   \<and> 2 \<le> float_hops (entry_distance seam_mesh {0} 3)"
proof -
  have wf: "wf_entries path_mesh"
    unfolding wf_entries_def by (simp add: path_mesh_def)
  have nd: "no_duplicates path_mesh"
    unfolding no_duplicates_def by (simp add: path_mesh_def)
  have res: "origins_resolved path_mesh 1"
    unfolding origins_resolved_def by (simp add: path_mesh_def symm_origin_def)
  have seeds: "origin_set path_mesh 1 0 = {1}"
    unfolding origin_set_def by (auto simp: path_mesh_def symm_origin_def)
  have hop: "seam_hops path_mesh {1} 1 2"
    using seam_step [OF seam_seed [of 1 "{1}" path_mesh], of 2] by (simp add: path_mesh_def)
  from topology_falloff_hop_count [OF wf res] obtain vals where
    d: "sculpt_expand_topology_falloff_create path_mesh 1 = Some vals"
    and v: "\<forall>u < totvert path_mesh. (\<exists>k. seam_hops path_mesh (origin_set path_mesh 1 0) k u) \<longrightarrow>
            (\<exists>k. seam_hops path_mesh (origin_set path_mesh 1 0) k u \<and> vals ! u = float_hops k)
          \<and> float_hops (seam_distance path_mesh (origin_set path_mesh 1 0) u) \<le> vals ! u
          \<and> vals ! u \<le> float_hops (entry_distance path_mesh (origin_set path_mesh 1 0) u)
          \<and> (no_duplicates path_mesh \<longrightarrow>
               vals ! u = float_hops (seam_distance path_mesh (origin_set path_mesh 1 0) u))"
    by blast
  from d have vals: "vals = [1, 0, 1, 0]" by (simp add: path_mesh_topology)
  have "(2::nat) < totvert path_mesh" by (simp add: path_mesh_def)
  moreover from hop have "\<exists>k. seam_hops path_mesh (origin_set path_mesh 1 0) k 2"
    unfolding seeds by blast
  ultimately have "vals ! 2 = float_hops (seam_distance path_mesh (origin_set path_mesh 1 0) 2)"
    using v nd by blast
  then have first: "seam_distance path_mesh {1} 2 = 1"
    unfolding seeds vals by (simp add: float_hops_def min_def split: if_splits)
  have wf2: "wf_entries seam_mesh"
    unfolding wf_entries_def by (simp add: seam_mesh_def)
  have res2: "origins_resolved seam_mesh 0"
    unfolding origins_resolved_def by (simp add: seam_mesh_def symm_origin_def)
  have seeds2: "origin_set seam_mesh 0 0 = {0}"
    unfolding origin_set_def by (auto simp: seam_mesh_def symm_origin_def)
  from topology_falloff_hop_count [OF wf2 res2] obtain vals2 where
    d2: "sculpt_expand_topology_falloff_create seam_mesh 0 = Some vals2"
    and v2: "\<forall>u < totvert seam_mesh. (\<exists>k. seam_hops seam_mesh (origin_set seam_mesh 0 0) k u) \<longrightarrow>
            (\<exists>k. seam_hops seam_mesh (origin_set seam_mesh 0 0) k u \<and> vals2 ! u = float_hops k)
          \<and> float_hops (seam_distance seam_mesh (origin_set seam_mesh 0 0) u) \<le> vals2 ! u
          \<and> vals2 ! u \<le> float_hops (entry_distance seam_mesh (origin_set seam_mesh 0 0) u)
          \<and> (no_duplicates seam_mesh \<longrightarrow>
               vals2 ! u = float_hops (seam_distance seam_mesh (origin_set seam_mesh 0 0) u))"
    by blast
  from d2 have vals2: "vals2 = [0, 0, 1, 2, 1]" by (simp add: seam_mesh_topology)
  have "(3::nat) < totvert seam_mesh" by (simp add: seam_mesh_def)
  moreover from seam_mesh_hops have "\<exists>k. seam_hops seam_mesh (origin_set seam_mesh 0 0) k 3"
    unfolding seeds2 by blast
  ultimately have "float_hops (seam_distance seam_mesh (origin_set seam_mesh 0 0) 3) \<le> vals2 ! 3"
    "vals2 ! 3 \<le> float_hops (entry_distance seam_mesh (origin_set seam_mesh 0 0) 3)"
    using v2 by blast+
  then have second: "float_hops (seam_distance seam_mesh {0} 3) \<le> 2"
    "2 \<le> float_hops (entry_distance seam_mesh {0} 3)"
    unfolding seeds2 vals2 by simp_all
  from first second seeds seeds2 hop seam_mesh_hops show ?thesis
    by (simp add: path_mesh_topology seam_mesh_topology)
qed

text \<open>
  The claim as stated fails. In the seam mesh the traversal discovers vertex 3 from vertex
  2, which is queued when the origin is processed, before vertex 4, which is queued only
  when vertex 1 is processed; vertex 3 gets the value 2 while its seam-aware distance is
  at most 1. This is so in either order of the neighbour lists. And on the long path
  without duplicates the last vertex is \<open>2^25\<close> hops from the origin but holds the value
  \<open>2^24\<close>.
\<close>

theorem topology_falloff_counterexample:
  "sculpt_expand_topology_falloff_create seam_mesh 0 = Some [0, 0, 1, 2, 1]
   \<and> sculpt_expand_topology_falloff_create seam_mesh_rev 0 = Some [0, 0, 1, 2, 1]
   \<and> origin_set seam_mesh 0 0 = {0} \<and> origin_set seam_mesh_rev 0 0 = {0}
   \<and> seam_hops seam_mesh {0} 1 3 \<and> seam_hops seam_mesh_rev {0} 1 3
   \<and> [0, 0, 1, 2, 1 :: real] ! 3 \<noteq> real (seam_distance seam_mesh {0} 3)
   \<and> [0, 0, 1, 2, 1 :: real] ! 3 \<noteq> real (seam_distance seam_mesh_rev {0} 3)
   \<and> seam_distance long_path_mesh {0} 33554432 = 33554432
   \<and> sculpt_expand_topology_falloff_create long_path_mesh 0 \<noteq> None
   \<and> the (sculpt_expand_topology_falloff_create long_path_mesh 0) ! 33554432 = 16777216"
proof -
  have seeds: "origin_set seam_mesh 0 0 = {0}"
    unfolding origin_set_def by (auto simp: seam_mesh_def symm_origin_def)
  have seeds_rev: "origin_set seam_mesh_rev 0 0 = {0}"
    unfolding origin_set_def by (auto simp: seam_mesh_rev_def seam_mesh_def symm_origin_def)
  from seam_mesh_hops have "seam_distance seam_mesh {0} 3 \<le> 1"
    unfolding seam_distance_def by (rule Least_le)
  then have a: "[0, 0, 1, 2, 1 :: real] ! 3 \<noteq> real (seam_distance seam_mesh {0} 3)" by simp
  from seam_mesh_rev_hops have "seam_distance seam_mesh_rev {0} 3 \<le> 1"
    unfolding seam_distance_def by (rule Least_le)
  then have b: "[0, 0, 1, 2, 1 :: real] ! 3 \<noteq> real (seam_distance seam_mesh_rev {0} 3)" by simp
  have nd: "no_duplicates long_path_mesh"
    unfolding no_duplicates_def by (simp add: long_path_mesh_def)
  have c: "seam_distance long_path_mesh {0} 33554432 = 33554432"
    using seam_hops_no_duplicates [OF nd, of "{0}"] long_path_hop_count(2) [of 33554432]
    by (simp add: seam_distance_def hop_count_def)
  from long_path_topology
  have e: "sculpt_expand_topology_falloff_create long_path_mesh 0 \<noteq> None
   \<and> the (sculpt_expand_topology_falloff_create long_path_mesh 0) ! 33554432 = 16777216"
    by auto
  from seeds seeds_rev a b c e seam_mesh_hops seam_mesh_rev_hops show ?thesis
    by (simp add: seam_mesh_topology seam_mesh_rev_topology)
qed


subsection \<open>Normal falloff\<close>

text \<open>The macro \<^verbatim>\<open>CLAMP(a, b, c)\<close>, as the value left in \<open>a\<close>.\<close>

definition CLAMP :: "real \<Rightarrow> real \<Rightarrow> real \<Rightarrow> real" where
  "CLAMP a b c = (if a < b then b else if a > c then c else a)"

text \<open>\<^verbatim>\<open>powf\<close> is the real power; the two agree for a positive base.\<close>

definition powf :: "real \<Rightarrow> real \<Rightarrow> real" where
  "powf x y = x powr y"

definition mask_expand_normal_floodfill_cb ::
  "SculptSession \<Rightarrow> nat \<Rightarrow> nat \<Rightarrow> bool \<Rightarrow> ExpandFloodFillData \<Rightarrow> bool \<times> ExpandFloodFillData" where
  "mask_expand_normal_floodfill_cb ss from_v to_v is_duplicate data =
     (if \<not> is_duplicate then
        (let current_normal = vert_no ss to_v;
             prev_normal = vert_no ss from_v;
             from_edge_factor = fd_edge_factor data ! from_v;
             edge_factor' = (fd_edge_factor data)
               [to_v := dot_v3v3 current_normal prev_normal * from_edge_factor];
             d = dot_v3v3 (fd_original_normal data) current_normal
                   * powf from_edge_factor (fd_edge_sensitivity data)
         in (True, data\<lparr>fd_dists := (fd_dists data)[to_v := CLAMP d 0 1],
                         fd_edge_factor := edge_factor'\<rparr>))
      else
        (True, data\<lparr>fd_dists := (fd_dists data)[to_v := fd_dists data ! from_v],
                     fd_edge_factor := (fd_edge_factor data)[to_v := fd_edge_factor data ! from_v]\<rparr>))"

text \<open>
  One step of the smoothing loop: the value of vertex \<open>i\<close> becomes the sum of the values of
  its neighbours divided by their number \<^verbatim>\<open>ni.size\<close>. The array is updated in place, so
  later vertices read the new value. A vertex without neighbours gets \<^verbatim>\<open>0.0f / 0\<close>, which
  is not a number; that, and an index outside the array, is \<open>None\<close>.
\<close>

definition smooth_vertex :: "SculptSession \<Rightarrow> real list \<Rightarrow> nat \<Rightarrow> real list option" where
  "smooth_vertex ss dists i =
     (let ns = vertex_neighbors ss i in
      if list_ex (\<lambda>index. length dists \<le> index) ns \<or> length dists \<le> i \<or> length ns = 0 then None
      else Some (dists[i := fold (\<lambda>index avg. avg + dists ! index) ns 0 / real (length ns)]))"

fun smooth_loop :: "SculptSession \<Rightarrow> nat list \<Rightarrow> real list \<Rightarrow> real list option" where
  "smooth_loop ss [] dists = Some dists"
| "smooth_loop ss (i # rest) dists =
     (case smooth_vertex ss dists i of
        None \<Rightarrow> None
      | Some dists' \<Rightarrow> smooth_loop ss rest dists')"

text \<open>
  \<^verbatim>\<open>sculpt_expand_normal_falloff_create\<close>. The block of \<^verbatim>\<open>dists\<close> comes from
  \<^verbatim>\<open>MEM_malloc_arrayN\<close> and starts with arbitrary contents \<open>uninit\<close>. After the flood fill
  every entry is set to \<^verbatim>\<open>FLT_MAX\<close>, and two rounds of smoothing follow.
\<close>

definition sculpt_expand_normal_falloff_create ::
  "SculptSession \<Rightarrow> (nat \<Rightarrow> real) \<Rightarrow> int \<Rightarrow> real \<Rightarrow> real list option" where
  "sculpt_expand_normal_falloff_create ss uninit vertex edge_sensitivity =
     (let dists = map uninit [0 ..< totvert ss];
          edge_factor = replicate (totvert ss) 1
      in case floodfill_add_initial_with_symmetry ss vertex (mesh_symmetry ss) 0
                (replicate (totvert ss) False, []) of
           None \<Rightarrow> None
         | Some (visited, queue) \<Rightarrow>
             (let fdata = \<lparr>fd_original_normal = vert_no ss (nat vertex),
                           fd_edge_sensitivity = edge_sensitivity,
                           fd_dists = dists, fd_edge_factor = edge_factor\<rparr>
              in case floodfill_execute mask_expand_normal_floodfill_cb ss fdata visited queue of
                   None \<Rightarrow> None
                 | Some fdata' \<Rightarrow>
                     (case smooth_loop ss [0 ..< totvert ss] (replicate (totvert ss) FLT_MAX) of
                        None \<Rightarrow> None
                      | Some dists1 \<Rightarrow> smooth_loop ss [0 ..< totvert ss] dists1)))"

text \<open>The value that the flood fill writes for a vertex that is not a duplicate lies
  in \<open>[0, 1]\<close>.\<close>

lemma CLAMP_unit: "0 \<le> CLAMP d 0 1 \<and> CLAMP d 0 1 \<le> 1"
  by (simp add: CLAMP_def)

lemma normal_floodfill_cb_unit:
  assumes "to_v < length (fd_dists data)"
  shows "0 \<le> fd_dists (snd (mask_expand_normal_floodfill_cb ss from_v to_v False data)) ! to_v
       \<and> fd_dists (snd (mask_expand_normal_floodfill_cb ss from_v to_v False data)) ! to_v \<le> 1"
  using assms CLAMP_unit by (simp add: mask_expand_normal_floodfill_cb_def Let_def)

text \<open>Two vertices joined by an edge, with the same normal and no symmetry.\<close>

definition pair_mesh :: SculptSession where
  "pair_mesh =
     \<lparr>totvert = 2, totfaces = 0,
      vert_co = (\<lambda>v. (real v, 0, 0)),
      vert_no = (\<lambda>v. (0, 0, 1)),
      vert_neighbors = (\<lambda>v. if v = 0 then [(1, False)] else [(0, False)]),
      mesh_symmetry = 0,
      symmetry_iteration_valid = (\<lambda>i symm. True),
      flip_v3 = (\<lambda>co symm. co),
      nearest_vertex = (\<lambda>co. - 1),
      boundary_data_init = (\<lambda>v. Some [])\<rparr>"

lemma pair_mesh_flood:
  "floodfill_add_initial_with_symmetry pair_mesh 0 0 0 ([False, False], []) = Some ([True, False], [0])"
  by (simp add: pair_mesh_def floodfill_eval)

lemma pair_mesh_visit:
  "mask_expand_normal_floodfill_cb pair_mesh 0 (Suc 0) False
     \<lparr>fd_original_normal = (0, 0, 1), fd_edge_sensitivity = 300,
      fd_dists = [a, b], fd_edge_factor = [1, 1]\<rparr>
   = (True, \<lparr>fd_original_normal = (0, 0, 1), fd_edge_sensitivity = 300,
      fd_dists = [a, 1], fd_edge_factor = [1, 1]\<rparr>)"
  by (simp add: mask_expand_normal_floodfill_cb_def pair_mesh_def dot_v3v3_def powf_def CLAMP_def)

lemma pair_mesh_execute:
  "floodfill_execute mask_expand_normal_floodfill_cb pair_mesh
     \<lparr>fd_original_normal = (0, 0, 1), fd_edge_sensitivity = 300,
      fd_dists = [a, b], fd_edge_factor = [1, 1]\<rparr> [True, False] [0]
   = Some \<lparr>fd_original_normal = (0, 0, 1), fd_edge_sensitivity = 300,
      fd_dists = [a, 1], fd_edge_factor = [1, 1]\<rparr>"
proof -
  have nb: "vert_neighbors pair_mesh v = (if v = 0 then [(1, False)] else [(0, False)])" for v
    by (simp add: pair_mesh_def)
  show ?thesis
    by (simp add: floodfill_execute.simps nb pair_mesh_visit)
qed

lemma pair_mesh_smooth:
  "smooth_loop pair_mesh [0, Suc 0] [FLT_MAX, FLT_MAX] = Some [FLT_MAX, FLT_MAX]"
proof -
  have nb: "vertex_neighbors pair_mesh v = (if v = 0 then [1] else [0])" for v
    by (simp add: vertex_neighbors_def pair_mesh_def)
  show ?thesis by (simp add: smooth_vertex_def nb)
qed

text \<open>
  Claim C5 fails on the code. The flood fill clamps its values to \<open>[0, 1]\<close>, but the build
  then overwrites every value with \<^verbatim>\<open>FLT_MAX\<close> before it smooths. On the pair of vertices the
  result is \<^verbatim>\<open>FLT_MAX\<close> at both, whatever the sensitivity computed before.
\<close>

theorem normal_falloff_out_of_range:
  "sculpt_expand_normal_falloff_create pair_mesh uninit 0 300 = Some [FLT_MAX, FLT_MAX]
   \<and> 1 < FLT_MAX"
proof
  have tv: "totvert pair_mesh = 2" "mesh_symmetry pair_mesh = 0" "vert_no pair_mesh 0 = (0, 0, 1)"
    by (simp_all add: pair_mesh_def)
  have up: "[0 ..< totvert pair_mesh] = [0, Suc 0]"
    by (simp add: tv upt_rec numeral_eq_Suc)
  have rep: "replicate (totvert pair_mesh) x = [x, x]" for x :: 'a
    by (simp add: tv numeral_eq_Suc)
  show "sculpt_expand_normal_falloff_create pair_mesh uninit 0 300 = Some [FLT_MAX, FLT_MAX]"
    unfolding sculpt_expand_normal_falloff_create_def up rep
    by (simp add: tv pair_mesh_flood pair_mesh_execute pair_mesh_smooth del: smooth_loop.simps)
  show "1 < FLT_MAX" by (simp add: FLT_MAX_def)
qed


subsection \<open>Erasing a face set id from the initial face sets\<close>

text \<open>The mesh of \<^verbatim>\<open>sculpt_expand_delete_face_set_id\<close>: for every polygon the vertices of
  its loops, in loop order.\<close>

record Mesh =
  totpoly :: nat
  poly_loop_verts :: "nat \<Rightarrow> nat list"

text \<open>The two nested \<^verbatim>\<open>for\<close> loops that look for a neighbouring face with another id:
  over the loops of the polygon, and over the faces of the vertex map of each loop
  vertex. The last differing id found wins.\<close>

definition find_other_id ::
  "Mesh \<Rightarrow> (nat \<Rightarrow> nat list) \<Rightarrow> int list \<Rightarrow> int \<Rightarrow> nat \<Rightarrow> int" where
  "find_other_id mesh pmap face_sets delete_id f_index =
     fold (\<lambda>v other_id.
             fold (\<lambda>neighbor_face_index other_id.
                     if face_sets ! neighbor_face_index \<noteq> delete_id
                     then face_sets ! neighbor_face_index else other_id)
               (pmap v) other_id)
       (poly_loop_verts mesh f_index) delete_id"

text \<open>
  The macros \<^verbatim>\<open>BLI_LINKSTACK_*\<close> of \<^verbatim>\<open>BLI_linklist_stack.h\<close> implement a last-in first-out
  list (the head is the top): \<^verbatim>\<open>BLI_LINKSTACK_POP\<close> yields the top element, or 0 (the null
  pointer) when the stack is empty; \<^verbatim>\<open>BLI_LINKSTACK_SIZE\<close> is the length and
  \<^verbatim>\<open>BLI_LINKSTACK_SWAP\<close> exchanges two stacks.

  The inner loop \<^verbatim>\<open>while (f_index = BLI_LINKSTACK_POP(queue))\<close> ends when the popped value
  is 0: on an empty stack, and also when face 0 is popped.
\<close>

fun relax_queue ::
  "Mesh \<Rightarrow> (nat \<Rightarrow> nat list) \<Rightarrow> int \<Rightarrow> int list \<Rightarrow> nat list \<Rightarrow> nat list
   \<Rightarrow> int list \<times> nat list \<times> nat list" where
  "relax_queue mesh pmap delete_id face_sets [] queue_next = (face_sets, [], queue_next)"
| "relax_queue mesh pmap delete_id face_sets (f_index # queue) queue_next =
     (if f_index = 0 then (face_sets, queue, queue_next)
      else
        (let other_id = find_other_id mesh pmap face_sets delete_id f_index in
         if other_id \<noteq> delete_id
         then relax_queue mesh pmap delete_id (face_sets[f_index := other_id]) queue queue_next
         else relax_queue mesh pmap delete_id face_sets queue (f_index # queue_next)))"

text \<open>The outer loop \<^verbatim>\<open>while (BLI_LINKSTACK_SIZE(queue))\<close>. It has no other exit, so it is a
  partial function: \<open>None\<close> stands for a run that never returns.\<close>

partial_function (option) delete_face_set_loop ::
  "Mesh \<Rightarrow> (nat \<Rightarrow> nat list) \<Rightarrow> int \<Rightarrow> int list \<Rightarrow> nat list \<Rightarrow> nat list \<Rightarrow> int list option"
where
  "delete_face_set_loop mesh pmap delete_id face_sets queue queue_next =
     (if length queue \<noteq> 0 then
        (case relax_queue mesh pmap delete_id face_sets queue queue_next of
           (face_sets', queue', queue_next') \<Rightarrow>
             delete_face_set_loop mesh pmap delete_id face_sets' queue_next' queue')
      else Some face_sets)"

definition sculpt_expand_delete_face_set_id ::
  "Mesh \<Rightarrow> (nat \<Rightarrow> nat list) \<Rightarrow> int list \<Rightarrow> nat \<Rightarrow> int \<Rightarrow> int list option" where
  "sculpt_expand_delete_face_set_id mesh pmap face_sets totface delete_id =
     delete_face_set_loop mesh pmap delete_id face_sets
       (rev (filter (\<lambda>i. face_sets ! i = delete_id) [0 ..< totface])) []"

text \<open>
  Three triangles: face 0 stands alone and carries the id 7; faces 1 and 2 share an edge,
  touch no other face, and both carry the id 5 that is to be deleted.
\<close>

definition island_mesh :: Mesh where
  "island_mesh = \<lparr>totpoly = 3,
     poly_loop_verts = (\<lambda>p. if p = 0 then [0, 1, 2] else if p = 1 then [3, 4, 5] else [4, 5, 6])\<rparr>"

definition island_pmap :: "nat \<Rightarrow> nat list" where
  "island_pmap v = (if v < 3 then [0] else if v = 3 then [1] else if v = 6 then [2] else [1, 2])"

definition island_face_sets :: "int list" where
  "island_face_sets = [7, 5, 5]"

text \<open>The states of the outer loop that the run on the island goes through.\<close>

definition island_state ::
  "Mesh \<Rightarrow> (nat \<Rightarrow> nat list) \<Rightarrow> int \<Rightarrow> int list \<Rightarrow> nat list \<Rightarrow> nat list \<Rightarrow> bool" where
  "island_state mesh pmap delete_id face_sets queue queue_next \<longleftrightarrow>
     mesh = island_mesh \<and> pmap = island_pmap \<and> delete_id = 5 \<and> face_sets = island_face_sets \<and>
     queue_next = [] \<and> (queue = [2, 1] \<or> queue = [1, 2])"

lemma island_other_id_1: "find_other_id island_mesh island_pmap island_face_sets 5 (Suc 0) = 5"
  by (simp add: find_other_id_def island_mesh_def island_pmap_def island_face_sets_def)

lemma island_other_id_2: "find_other_id island_mesh island_pmap island_face_sets 5 2 = 5"
  by (simp add: find_other_id_def island_mesh_def island_pmap_def island_face_sets_def)

lemma island_pass_21:
  "relax_queue island_mesh island_pmap 5 island_face_sets [2, 1] [] = (island_face_sets, [], [1, 2])"
  by (simp add: island_other_id_1 island_other_id_2)

lemma island_pass_12:
  "relax_queue island_mesh island_pmap 5 island_face_sets [1, 2] [] = (island_face_sets, [], [2, 1])"
  by (simp add: island_other_id_1 island_other_id_2)

lemma island_pass:
  assumes "island_state mesh pmap delete_id face_sets queue queue_next"
  shows "\<exists>queue'. relax_queue mesh pmap delete_id face_sets queue queue_next
            = (island_face_sets, [], queue')
          \<and> island_state mesh pmap delete_id island_face_sets queue' []"
  using assms island_pass_21 island_pass_12 unfolding island_state_def by auto

lemma island_never_returns:
  assumes "delete_face_set_loop mesh pmap delete_id face_sets queue queue_next = Some y"
  shows "\<not> island_state mesh pmap delete_id face_sets queue queue_next"
proof (rule delete_face_set_loop.raw_induct [where P = "\<lambda>mesh pmap delete_id face_sets queue queue_next y.
      \<not> island_state mesh pmap delete_id face_sets queue queue_next", OF _ assms])
  fix loop :: "Mesh \<Rightarrow> (nat \<Rightarrow> nat list) \<Rightarrow> int \<Rightarrow> int list \<Rightarrow> nat list \<Rightarrow> nat list \<Rightarrow> int list option"
  fix mesh pmap delete_id face_sets queue queue_next y
  assume IH: "\<And>mesh pmap delete_id face_sets queue queue_next y.
      loop mesh pmap delete_id face_sets queue queue_next = Some y \<Longrightarrow>
      \<not> island_state mesh pmap delete_id face_sets queue queue_next"
  assume body: "(if length queue \<noteq> 0 then
       (case relax_queue mesh pmap delete_id face_sets queue queue_next of
          (face_sets', queue', queue_next') \<Rightarrow>
            loop mesh pmap delete_id face_sets' queue_next' queue')
     else Some face_sets) = Some y"
  show "\<not> island_state mesh pmap delete_id face_sets queue queue_next"
  proof
    assume state: "island_state mesh pmap delete_id face_sets queue queue_next"
    from island_pass [OF state] obtain queue' where
      pass: "relax_queue mesh pmap delete_id face_sets queue queue_next = (island_face_sets, [], queue')"
      and state': "island_state mesh pmap delete_id island_face_sets queue' []"
      by blast
    from state have "length queue \<noteq> 0" unfolding island_state_def by auto
    with body have "(case relax_queue mesh pmap delete_id face_sets queue queue_next of
        (face_sets', queue', queue_next') \<Rightarrow>
          loop mesh pmap delete_id face_sets' queue_next' queue') = Some y"
      by (simp only: if_True if_False not_False_eq_True simp_thms split: if_splits)
    then have "loop mesh pmap delete_id island_face_sets queue' [] = Some y"
      by (simp only: pass prod.case)
    from IH [OF this] state' show False by blast
  qed
qed

text \<open>
  Claim C2 fails on the code. The relaxation loop stops only when the queue is empty; a
  pass that changes no face does not end it. On the island above the faces 1 and 2 are put
  back on the queue by every pass, and the call never returns.
\<close>

theorem delete_face_set_id_diverges:
  "sculpt_expand_delete_face_set_id island_mesh island_pmap island_face_sets 3 5 = None"
proof (cases "sculpt_expand_delete_face_set_id island_mesh island_pmap island_face_sets 3 5")
  case None
  then show ?thesis .
next
  case (Some y)
  have "rev (filter (\<lambda>i. island_face_sets ! i = 5) [0 ..< 3]) = [2, 1]"
    by (simp add: island_face_sets_def numeral_eq_Suc)
  with Some have "delete_face_set_loop island_mesh island_pmap 5 island_face_sets [2, 1] [] = Some y"
    by (simp only: sculpt_expand_delete_face_set_id_def)
  from island_never_returns [OF this] show ?thesis by (simp add: island_state_def)
qed


section \<open>The expand session of the sculpt expand operator\<close>

text \<open>
  The operator keeps its working data in an \<^verbatim>\<open>ExpandCache\<close> and writes one of three
  channels of the sculpt session: the vertex masks, the face sets or the vertex colours.
  The fields of the cache carry the prefix \<open>ec\<close>; only the fields that the functions below
  read or write are kept. The set \<^verbatim>\<open>snap_enabled_face_sets\<close> is a pointer that may be null.
\<close>

datatype eSculptExpandTargetType =
  SCULPT_EXPAND_TARGET_MASK | SCULPT_EXPAND_TARGET_FACE_SETS | SCULPT_EXPAND_TARGET_COLORS

type_synonym vec4 = "real \<times> real \<times> real \<times> real"

record ExpandCache =
  ec_target :: eSculptExpandTargetType
  ec_falloff_factor :: "real list"
  ec_face_falloff_factor :: "real list"
  ec_active_factor :: real
  ec_max_falloff_factor :: real
  ec_invert :: bool
  ec_preserve :: bool
  ec_falloff_gradient :: bool
  ec_snap :: bool
  ec_snap_enabled_face_sets :: "int list option"
  ec_next_face_set :: int
  ec_fill_color :: vec4
  ec_blend_mode :: int
  ec_initial_mask :: "real list"
  ec_initial_face_sets :: "int list"
  ec_initial_color :: "vec4 list"

text \<open>
  The part of the object that the operator touches, with the prefix \<open>ob\<close>: the three
  channels and the pointer \<^verbatim>\<open>ss->expand_cache\<close>. The number of vertices is the length of
  the mask channel and the number of faces the length of the face sets. Two helpers of
  other files are parameters: \<^verbatim>\<open>SCULPT_vertex_face_set_get\<close>, which reads the face set of a
  vertex off the face sets, and \<^verbatim>\<open>IMB_blend_color_float\<close>.
\<close>

record ExpandObject =
  ob_mask :: "real list"
  ob_face_sets :: "int list"
  ob_color :: "vec4 list"
  ob_vertex_face_set_get :: "int list \<Rightarrow> nat \<Rightarrow> int"
  ob_blend_color_float :: "int \<Rightarrow> vec4 \<Rightarrow> vec4 \<Rightarrow> vec4"
  ob_expand_cache :: "ExpandCache option"

definition max_ff :: "real \<Rightarrow> real \<Rightarrow> real" where
  "max_ff a b = (if a > b then a else b)"

definition clamp_f :: "real \<Rightarrow> real \<Rightarrow> real \<Rightarrow> real" where
  "clamp_f v lo hi = (if v > hi then hi else if v < lo then lo else v)"

definition mul_v4_v4fl :: "vec4 \<Rightarrow> real \<Rightarrow> vec4" where
  "mul_v4_v4fl a f = (case a of (x, y, z, w) \<Rightarrow> (x * f, y * f, z * f, w * f))"

text \<open>Reading outside an array and following a null pointer are undefined in C; the
  functions below return \<open>None\<close> there.\<close>

definition sculpt_expand_state_get :: "ExpandObject \<Rightarrow> ExpandCache \<Rightarrow> nat \<Rightarrow> bool option" where
  "sculpt_expand_state_get ss expand_cache i =
     (let enabled =
        (if ec_snap expand_cache then
           (case ec_snap_enabled_face_sets expand_cache of
              None \<Rightarrow> None
            | Some gs \<Rightarrow>
                Some (List.member gs (ob_vertex_face_set_get ss (ob_face_sets ss) i)))
         else if i < length (ec_falloff_factor expand_cache)
         then Some (ec_falloff_factor expand_cache ! i \<le> ec_active_factor expand_cache)
         else None)
      in if ec_invert expand_cache then map_option Not enabled else enabled)"

definition sculpt_expand_face_state_get :: "ExpandObject \<Rightarrow> ExpandCache \<Rightarrow> nat \<Rightarrow> bool option" where
  "sculpt_expand_face_state_get ss expand_cache f =
     (let enabled =
        (case ec_snap_enabled_face_sets expand_cache of
           Some gs \<Rightarrow>
             if f < length (ob_face_sets ss) then Some (List.member gs (ob_face_sets ss ! f))
             else None
         | None \<Rightarrow>
             if f < length (ec_face_falloff_factor expand_cache)
             then Some (ec_face_falloff_factor expand_cache ! f \<le> ec_active_factor expand_cache)
             else None)
      in if ec_invert expand_cache then map_option Not enabled else enabled)"

text \<open>A division by zero yields an infinity or no number in C, which is \<open>None\<close> here.\<close>

definition sculpt_expand_gradient_falloff_get :: "ExpandCache \<Rightarrow> nat \<Rightarrow> real option" where
  "sculpt_expand_gradient_falloff_get expand_cache i =
     (if \<not> ec_falloff_gradient expand_cache then Some 1
      else if length (ec_falloff_factor expand_cache) \<le> i then None
      else if ec_invert expand_cache then
        (if ec_max_falloff_factor expand_cache - ec_active_factor expand_cache = 0 then None
         else Some ((ec_falloff_factor expand_cache ! i - ec_active_factor expand_cache) /
                    (ec_max_falloff_factor expand_cache - ec_active_factor expand_cache)))
      else
        (if ec_active_factor expand_cache = 0 then None
         else Some (1 - ec_falloff_factor expand_cache ! i / ec_active_factor expand_cache)))"

text \<open>The fade of a vertex: the gradient value when the vertex is enabled, else zero.\<close>

definition vertex_fade :: "ExpandObject \<Rightarrow> ExpandCache \<Rightarrow> nat \<Rightarrow> real option" where
  "vertex_fade ss expand_cache i =
     (case sculpt_expand_state_get ss expand_cache i of
        None \<Rightarrow> None
      | Some enabled \<Rightarrow>
          if enabled then sculpt_expand_gradient_falloff_get expand_cache i else Some 0)"

text \<open>
  The body of the vertex loop of \<^verbatim>\<open>sculpt_expand_mask_update_task_cb\<close>. Every vertex
  lies in a node of the tree, and the new value of a vertex depends on that vertex alone
  and does not change when the vertex is visited again, so the parallel loop over the
  nodes is a loop over the vertices.
\<close>

definition mask_update_vertex :: "ExpandObject \<Rightarrow> ExpandCache \<Rightarrow> real list \<Rightarrow> nat \<Rightarrow> real list option" where
  "mask_update_vertex ss expand_cache vmask i =
     (if length vmask \<le> i then None
      else
        (let initial_mask = vmask ! i in
         case vertex_fade ss expand_cache i of
           None \<Rightarrow> None
         | Some new_mask0 \<Rightarrow>
             if ec_preserve expand_cache \<and> length (ec_initial_mask expand_cache) \<le> i then None
             else
               (let new_mask =
                      (if ec_preserve expand_cache
                       then max_ff new_mask0 (ec_initial_mask expand_cache ! i) else new_mask0)
                in if new_mask = initial_mask then Some vmask
                   else Some (vmask[i := clamp_f new_mask 0 1]))))"

fun mask_update :: "ExpandObject \<Rightarrow> ExpandCache \<Rightarrow> nat list \<Rightarrow> real list \<Rightarrow> real list option" where
  "mask_update ss expand_cache [] vmask = Some vmask"
| "mask_update ss expand_cache (i # rest) vmask =
     (case mask_update_vertex ss expand_cache vmask i of
        None \<Rightarrow> None
      | Some vmask' \<Rightarrow> mask_update ss expand_cache rest vmask')"

text \<open>\<^verbatim>\<open>sculpt_expand_face_sets_update\<close>, for the faces \<open>fs\<close> still to come. The state of a
  face reads the face sets as the loop has left them.\<close>

fun sculpt_expand_face_sets_update ::
  "ExpandObject \<Rightarrow> ExpandCache \<Rightarrow> nat list \<Rightarrow> ExpandObject option" where
  "sculpt_expand_face_sets_update ss expand_cache [] = Some ss"
| "sculpt_expand_face_sets_update ss expand_cache (f # fs) =
     (case sculpt_expand_face_state_get ss expand_cache f of
        None \<Rightarrow> None
      | Some enabled \<Rightarrow>
          if \<not> enabled then sculpt_expand_face_sets_update ss expand_cache fs
          else if length (ob_face_sets ss) \<le> f then None
          else if ec_preserve expand_cache then
            sculpt_expand_face_sets_update
              (ss\<lparr>ob_face_sets := (ob_face_sets ss)
                    [f := ob_face_sets ss ! f + ec_next_face_set expand_cache]\<rparr>) expand_cache fs
          else
            sculpt_expand_face_sets_update
              (ss\<lparr>ob_face_sets := (ob_face_sets ss)[f := ec_next_face_set expand_cache]\<rparr>)
              expand_cache fs)"

text \<open>The body of the vertex loop of \<^verbatim>\<open>sculpt_expand_colors_update_task_cb\<close>.\<close>

definition colors_update_vertex :: "ExpandObject \<Rightarrow> ExpandCache \<Rightarrow> vec4 list \<Rightarrow> nat \<Rightarrow> vec4 list option" where
  "colors_update_vertex ss expand_cache col i =
     (if length col \<le> i \<or> length (ob_mask ss) \<le> i \<or> length (ec_initial_color expand_cache) \<le> i
      then None
      else
        (let initial_color = col ! i in
         case vertex_fade ss expand_cache i of
           None \<Rightarrow> None
         | Some fade0 \<Rightarrow>
             (let fade = clamp_f (fade0 * (1 - ob_mask ss ! i)) 0 1;
                  final_fill_color = mul_v4_v4fl (ec_fill_color expand_cache) fade;
                  final_color = ob_blend_color_float ss (ec_blend_mode expand_cache)
                                  (ec_initial_color expand_cache ! i) final_fill_color
              in if initial_color = final_color then Some col
                 else Some (col[i := final_color]))))"

fun colors_update :: "ExpandObject \<Rightarrow> ExpandCache \<Rightarrow> nat list \<Rightarrow> vec4 list \<Rightarrow> vec4 list option" where
  "colors_update ss expand_cache [] col = Some col"
| "colors_update ss expand_cache (i # rest) col =
     (case colors_update_vertex ss expand_cache col i of
        None \<Rightarrow> None
      | Some col' \<Rightarrow> colors_update ss expand_cache rest col')"

text \<open>
  \<^verbatim>\<open>sculpt_expand_initial_state_store\<close>: the snapshot taken when the session starts. The
  block of \<^verbatim>\<open>initial_face_sets\<close> has room for one entry per vertex and receives one entry
  per face, which writes outside the block when the mesh has more faces than vertices.
\<close>

definition sculpt_expand_initial_state_store :: "ExpandObject \<Rightarrow> ExpandCache \<Rightarrow> ExpandCache option" where
  "sculpt_expand_initial_state_store ss expand_cache =
     (if length (ob_mask ss) < length (ob_face_sets ss) then None
      else if ec_target expand_cache = SCULPT_EXPAND_TARGET_COLORS then
        (if length (ob_color ss) < length (ob_mask ss) then None
         else Some (expand_cache\<lparr>ec_initial_mask := ob_mask ss,
                                 ec_initial_face_sets := ob_face_sets ss,
                                 ec_initial_color := take (length (ob_mask ss)) (ob_color ss)\<rparr>))
      else Some (expand_cache\<lparr>ec_initial_mask := ob_mask ss,
                              ec_initial_face_sets := ob_face_sets ss\<rparr>))"

definition sculpt_expand_face_sets_restore :: "ExpandObject \<Rightarrow> ExpandCache \<Rightarrow> ExpandObject option" where
  "sculpt_expand_face_sets_restore ss expand_cache =
     (if length (ec_initial_face_sets expand_cache) < length (ob_face_sets ss) then None
      else Some (ss\<lparr>ob_face_sets :=
                      map (\<lambda>i. ec_initial_face_sets expand_cache ! i) [0 ..< length (ob_face_sets ss)]\<rparr>))"

text \<open>\<^verbatim>\<open>sculpt_expand_update_for_vertex\<close>: the apply step, run once when the session starts
  and on every pointer move; \<open>vertex\<close> is the vertex under the pointer, or
  \<^verbatim>\<open>SCULPT_EXPAND_VERTEX_NONE\<close>.\<close>

definition sculpt_expand_update_for_vertex :: "ExpandObject \<Rightarrow> int \<Rightarrow> ExpandObject option" where
  "sculpt_expand_update_for_vertex ss vertex =
     (case ob_expand_cache ss of
        None \<Rightarrow> None
      | Some cache0 \<Rightarrow>
          if vertex \<noteq> SCULPT_EXPAND_VERTEX_NONE
             \<and> (vertex < 0 \<or> length (ec_falloff_factor cache0) \<le> nat vertex) then None
          else
            (let expand_cache = cache0\<lparr>ec_active_factor :=
                   (if vertex = SCULPT_EXPAND_VERTEX_NONE then ec_max_falloff_factor cache0
                    else ec_falloff_factor cache0 ! nat vertex)\<rparr>;
                 ss1 = ss\<lparr>ob_expand_cache := Some expand_cache\<rparr>
             in case (if ec_target expand_cache = SCULPT_EXPAND_TARGET_FACE_SETS
                      then sculpt_expand_face_sets_restore ss1 expand_cache else Some ss1) of
                  None \<Rightarrow> None
                | Some ss2 \<Rightarrow>
                    (case ec_target expand_cache of
                       SCULPT_EXPAND_TARGET_MASK \<Rightarrow>
                         (case mask_update ss2 expand_cache [0 ..< length (ob_mask ss2)] (ob_mask ss2) of
                            None \<Rightarrow> None
                          | Some vmask' \<Rightarrow> Some (ss2\<lparr>ob_mask := vmask'\<rparr>))
                     | SCULPT_EXPAND_TARGET_FACE_SETS \<Rightarrow>
                         sculpt_expand_face_sets_update ss2 expand_cache
                           [0 ..< length (ob_face_sets ss2)]
                     | SCULPT_EXPAND_TARGET_COLORS \<Rightarrow>
                         (case colors_update ss2 expand_cache [0 ..< length (ob_mask ss2)]
                                 (ob_color ss2) of
                            None \<Rightarrow> None
                          | Some col' \<Rightarrow> Some (ss2\<lparr>ob_color := col'\<rparr>)))))"

text \<open>
  \<^verbatim>\<open>sculpt_expand_cancel\<close> calls \<^verbatim>\<open>sculpt_expand_cache_free\<close> on the cache and clears the
  status text. Freeing releases the arrays of the cache, the snapshot among them; after
  it the session has no cache.
\<close>

definition sculpt_expand_cache_free :: "ExpandCache option \<Rightarrow> unit option" where
  "sculpt_expand_cache_free expand_cache = (case expand_cache of None \<Rightarrow> None | Some c \<Rightarrow> Some ())"

definition sculpt_expand_cancel :: "ExpandObject \<Rightarrow> ExpandObject option" where
  "sculpt_expand_cancel ss =
     (case sculpt_expand_cache_free (ob_expand_cache ss) of
        None \<Rightarrow> None
      | Some u \<Rightarrow> Some (ss\<lparr>ob_expand_cache := None\<rparr>))"

subsection \<open>Cancelling a session\<close>

text \<open>Cancelling writes none of the three channels.\<close>

lemma sculpt_expand_cancel_channels:
  assumes "sculpt_expand_cancel ss = Some ss'"
  shows "ob_mask ss' = ob_mask ss \<and> ob_face_sets ss' = ob_face_sets ss \<and> ob_color ss' = ob_color ss"
  using assms by (auto simp: sculpt_expand_cancel_def split: option.splits)

text \<open>
  A single triangle with an empty mask. The falloff field is the number of edges to
  vertex 0; the session targets the mask, with every modifier off.
\<close>

definition triangle_object :: ExpandObject where
  "triangle_object =
     \<lparr>ob_mask = [0, 0, 0], ob_face_sets = [1], ob_color = [],
      ob_vertex_face_set_get = (\<lambda>face_sets v. 1),
      ob_blend_color_float = (\<lambda>mode src1 src2. src1),
      ob_expand_cache = None\<rparr>"

definition triangle_cache :: ExpandCache where
  "triangle_cache =
     \<lparr>ec_target = SCULPT_EXPAND_TARGET_MASK,
      ec_falloff_factor = [0, 1, 1], ec_face_falloff_factor = [],
      ec_active_factor = 0, ec_max_falloff_factor = 1,
      ec_invert = False, ec_preserve = False, ec_falloff_gradient = False,
      ec_snap = False, ec_snap_enabled_face_sets = None,
      ec_next_face_set = 2, ec_fill_color = (1, 1, 1, 1), ec_blend_mode = 0,
      ec_initial_mask = [], ec_initial_face_sets = [], ec_initial_color = []\<rparr>"

definition triangle_started :: ExpandCache where
  "triangle_started = triangle_cache\<lparr>ec_initial_mask := [0, 0, 0], ec_initial_face_sets := [1]\<rparr>"

lemma triangle_store:
  "sculpt_expand_initial_state_store triangle_object triangle_cache = Some triangle_started"
  by (simp add: sculpt_expand_initial_state_store_def triangle_object_def triangle_cache_def
      triangle_started_def)

lemma triangle_fade:
  "vertex_fade ss (triangle_started\<lparr>ec_active_factor := a\<rparr>) i =
     (if i < 3 then Some (if [0, 1, 1] ! i \<le> a then 1 else 0) else None)"
  by (simp add: vertex_fade_def sculpt_expand_state_get_def sculpt_expand_gradient_falloff_get_def
      triangle_started_def triangle_cache_def)

lemma triangle_first_update:
  "sculpt_expand_update_for_vertex (triangle_object\<lparr>ob_expand_cache := Some triangle_started\<rparr>) 0
   = Some (triangle_object\<lparr>ob_mask := [1, 0, 0],
        ob_expand_cache := Some (triangle_started\<lparr>ec_active_factor := 0\<rparr>)\<rparr>)"
proof -
  have c: "ec_target triangle_started = SCULPT_EXPAND_TARGET_MASK"
    "ec_falloff_factor triangle_started = [0, 1, 1]" "\<not> ec_preserve triangle_started"
    by (simp_all add: triangle_started_def triangle_cache_def)
  have up: "[0 ..< 3] = [0, Suc 0, 2]" by (simp add: upt_rec numeral_eq_Suc)
  show ?thesis
    by (simp add: sculpt_expand_update_for_vertex_def SCULPT_EXPAND_VERTEX_NONE_def c Let_def
        triangle_object_def up mask_update_vertex_def triangle_fade clamp_f_def)
qed

lemma triangle_second_update:
  "sculpt_expand_update_for_vertex
     (triangle_object\<lparr>ob_mask := [1, 0, 0],
        ob_expand_cache := Some (triangle_started\<lparr>ec_active_factor := 0\<rparr>)\<rparr>) 1
   = Some (triangle_object\<lparr>ob_mask := [1, 1, 1],
        ob_expand_cache := Some (triangle_started\<lparr>ec_active_factor := 1\<rparr>)\<rparr>)"
proof -
  have c: "ec_target triangle_started = SCULPT_EXPAND_TARGET_MASK"
    "ec_falloff_factor triangle_started = [0, 1, 1]" "\<not> ec_preserve triangle_started"
    by (simp_all add: triangle_started_def triangle_cache_def)
  have up: "[0 ..< 3] = [0, Suc 0, 2]" by (simp add: upt_rec numeral_eq_Suc)
  show ?thesis
    by (simp add: sculpt_expand_update_for_vertex_def SCULPT_EXPAND_VERTEX_NONE_def c Let_def
        triangle_object_def up mask_update_vertex_def triangle_fade clamp_f_def)
qed

text \<open>
  Claim C1 fails on the code. The session on the triangle stores the snapshot
  \<open>[0, 0, 0]\<close> of the mask, applies the expansion for vertex 0 and, after a pointer move,
  for vertex 1, and is then cancelled. The mask stays at \<open>[1, 1, 1]\<close>: cancelling frees the
  cache with the snapshot in it and restores nothing.
\<close>

theorem cancel_leaves_expanded_mask:
  "Option.bind (sculpt_expand_initial_state_store triangle_object triangle_cache)
     (\<lambda>started.
        Option.bind
          (sculpt_expand_update_for_vertex (triangle_object\<lparr>ob_expand_cache := Some started\<rparr>) 0)
          (\<lambda>ss. Option.bind (sculpt_expand_update_for_vertex ss 1) sculpt_expand_cancel))
   = Some (triangle_object\<lparr>ob_mask := [1, 1, 1]\<rparr>)
   \<and> map_option ec_initial_mask (sculpt_expand_initial_state_store triangle_object triangle_cache)
     = Some [0, 0, 0]"
  by (simp add: triangle_store triangle_first_update triangle_second_update
      sculpt_expand_cancel_def sculpt_expand_cache_free_def)
    (simp add: triangle_started_def triangle_object_def)

end
